theory Spec2Isabelle
  imports Complex_Main "HOL-Library.List_Lexorder" "HOL-Library.Product_Lexorder"
begin

section \<open>Python values\<close>

text \<open>
  A Python \<open>str\<close> is a sequence of Unicode code points, so it is modelled as the list of its
  code points; the empty string is the empty list. Python compares strings lexicographically by
  code point, which is the order of \<open>HOL-Library.List_Lexorder\<close> on \<open>nat list\<close>.
\<close>

type_synonym pystr = "nat list"

datatype py_error = ValueError | KeyError | AttributeError | ImportError | AxisError

text \<open>
  The built-in \<open>chr(i)\<close>: the one-character string of code point \<open>i\<close>; it raises
  \<open>ValueError\<close> outside \<open>range(0x110000)\<close>.
\<close>

definition chr :: "int \<Rightarrow> py_error + pystr" where
  "chr i = (if 0 \<le> i \<and> i < 1114112 then Inr [nat i] else Inl ValueError)"

section \<open>Randomised computations\<close>

text \<open>
  The design generator draws from Python's process-wide generator. A randomised computation is
  modelled by the list of all its outcomes, one entry per way the draws can fall; an outcome is
  either a raised exception (\<open>Inl\<close>) or a returned value (\<open>Inr\<close>). Sequencing stops a
  branch at the first exception, as the Python does.
\<close>

type_synonym 'a outcomes = "(py_error + 'a) list"

definition bind_outcomes :: "'a outcomes \<Rightarrow> ('a \<Rightarrow> 'b outcomes) \<Rightarrow> 'b outcomes" where
  "bind_outcomes m f = concat (map (\<lambda>r. case r of Inl e \<Rightarrow> [Inl e] | Inr x \<Rightarrow> f x) m)"

text \<open>
  \<open>arrangements xs k\<close>: every way of picking \<open>k\<close> positions of \<open>xs\<close> one after the other
  without replacement, each way listed once, as the sequence of the elements picked.
\<close>

fun arrangements :: "'a list \<Rightarrow> nat \<Rightarrow> 'a list list" where
  "arrangements xs 0 = [[]]"
| "arrangements xs (Suc k) =
     concat (map (\<lambda>i. map ((#) (xs ! i)) (arrangements (take i xs @ drop (Suc i) xs) k))
                 [0..<length xs])"

text \<open>
  \<open>random.sample(population, k)\<close> of the standard library: \<open>ValueError\<close> unless
  \<open>0 \<le> k \<le> len(population)\<close>, otherwise \<open>k\<close> elements chosen from distinct positions
  of the population, every arrangement being equally likely.
\<close>

definition random_sample :: "'a list \<Rightarrow> int \<Rightarrow> 'a list outcomes" where
  "random_sample population k =
     (if 0 \<le> k \<and> k \<le> int (length population)
      then map Inr (arrangements population (nat k))
      else [Inl ValueError])"

section \<open>Survey design engine (\<^verbatim>\<open>survey_design_code.py\<close>)\<close>

record designer =
  benefits :: "pystr list"
  n_alternatives :: int
  n_questions :: int
  items_per_alternative :: int

text \<open>\<open>ConjointSurveyDesigner.__init__\<close> stores its four arguments and checks nothing.\<close>

definition init_designer :: "pystr list \<Rightarrow> int \<Rightarrow> int \<Rightarrow> int \<Rightarrow> designer" where
  "init_designer benefits_list n_alts n_qs items =
     \<lparr>benefits = benefits_list, n_alternatives = n_alts, n_questions = n_qs,
      items_per_alternative = items\<rparr>"

definition available_benefits :: "designer \<Rightarrow> pystr set \<Rightarrow> pystr list" where
  "available_benefits d exclude_benefits =
     (let available = filter (\<lambda>b. b \<notin> exclude_benefits) (benefits d)
      in if int (length available) < items_per_alternative d then benefits d else available)"

definition generate_random_bundle :: "designer \<Rightarrow> pystr set \<Rightarrow> pystr list outcomes" where
  "generate_random_bundle d exclude_benefits =
     (let available = available_benefits d exclude_benefits
      in random_sample available (min (items_per_alternative d) (int (length available))))"

record alternative_rec =
  alternative_id :: pystr
  alt_benefits :: "pystr list"

record question_rec =
  question_id :: int
  alternatives :: "alternative_rec list"

record survey_rec =
  respondent_id :: int
  questions :: "question_rec list"

text \<open>
  The loop of \<open>generate_question\<close> over \<open>range(n_alternatives)\<close>, with its two loop
  variables \<open>alternatives\<close> and \<open>used_benefits\<close>. The bundle is drawn before the label is
  computed, as in the source.
\<close>

fun question_loop ::
  "designer \<Rightarrow> int list \<Rightarrow> alternative_rec list \<Rightarrow> pystr set \<Rightarrow> alternative_rec list outcomes"
where
  "question_loop d [] alts used_benefits = [Inr alts]"
| "question_loop d (alt_id # rest) alts used_benefits =
     bind_outcomes (generate_random_bundle d used_benefits)
       (\<lambda>bundle. case chr (65 + alt_id) of
            Inl e \<Rightarrow> [Inl e]
          | Inr c \<Rightarrow> question_loop d rest
                      (alts @ [\<lparr>alternative_id = c, alt_benefits = bundle\<rparr>])
                      (used_benefits \<union> set bundle))"

definition generate_question :: "designer \<Rightarrow> int \<Rightarrow> question_rec outcomes" where
  "generate_question d q_id =
     bind_outcomes (question_loop d [0..n_alternatives d - 1] [] {})
       (\<lambda>alts. [Inr \<lparr>question_id = q_id, alternatives = alts\<rparr>])"

text \<open>The inner loop of \<open>generate_survey\<close> over \<open>range(1, n_questions + 1)\<close>.\<close>

fun questions_loop :: "designer \<Rightarrow> int list \<Rightarrow> question_rec list \<Rightarrow> question_rec list outcomes"
where
  "questions_loop d [] qs = [Inr qs]"
| "questions_loop d (q_id # rest) qs =
     bind_outcomes (generate_question d q_id) (\<lambda>question. questions_loop d rest (qs @ [question]))"

text \<open>The outer loop of \<open>generate_survey\<close> over \<open>range(1, n_respondents + 1)\<close>.\<close>

fun survey_loop :: "designer \<Rightarrow> int list \<Rightarrow> survey_rec list \<Rightarrow> survey_rec list outcomes" where
  "survey_loop d [] all_surveys = [Inr all_surveys]"
| "survey_loop d (resp_id # rest) all_surveys =
     bind_outcomes (questions_loop d [1..n_questions d] [])
       (\<lambda>qs. survey_loop d rest (all_surveys @ [\<lparr>respondent_id = resp_id, questions = qs\<rparr>]))"

definition generate_survey :: "designer \<Rightarrow> int \<Rightarrow> survey_rec list outcomes" where
  "generate_survey d n_respondents = survey_loop d [1..n_respondents] []"

text \<open>
  A cell of a data frame is a string or missing (\<open>NaN\<close>, here \<open>None\<close>). A design row carries
  its benefit cells in column order: position \<open>i\<close> is the column \<open>benefit_{i+1}\<close>.
\<close>

type_synonym cell = "pystr option"

record design_row =
  row_respondent_id :: int
  row_question_id :: int
  alternative :: pystr
  benefit_cells :: "cell list"

definition benefit_cols :: "designer \<Rightarrow> pystr list \<Rightarrow> cell list" where
  "benefit_cols d bs =
     map (\<lambda>i. if i < length bs then Some (bs ! i) else Some [])
         [0..<nat (items_per_alternative d)]"

definition export_to_csv :: "designer \<Rightarrow> survey_rec list \<Rightarrow> design_row list" where
  "export_to_csv d surveys =
     concat (map (\<lambda>survey.
       concat (map (\<lambda>question.
         map (\<lambda>alt. \<lparr>row_respondent_id = respondent_id survey,
                     row_question_id = question_id question,
                     alternative = alternative_id alt,
                     benefit_cells = benefit_cols d (alt_benefits alt)\<rparr>)
             (alternatives question))
         (questions survey)))
       surveys)"

text \<open>
  The guard of \<open>generate_random_bundle\<close> on its own, and the replay of the loop of
  \<open>generate_question\<close> over a finished question: at each alternative the exclusion set is the
  union of the bundles placed before it, which is the value of \<open>used_benefits\<close> when that
  alternative was drawn. \<open>no_fallback\<close> says that the guard was false at every draw.
\<close>

definition fallback_triggered :: "designer \<Rightarrow> pystr set \<Rightarrow> bool" where
  "fallback_triggered d exclude_benefits \<longleftrightarrow>
     int (length (filter (\<lambda>b. b \<notin> exclude_benefits) (benefits d))) < items_per_alternative d"

fun no_fallback :: "designer \<Rightarrow> pystr set \<Rightarrow> alternative_rec list \<Rightarrow> bool" where
  "no_fallback d used_benefits [] = True"
| "no_fallback d used_benefits (alt # alts) =
     (\<not> fallback_triggered d used_benefits \<and>
      no_fallback d (used_benefits \<union> set (alt_benefits alt)) alts)"

text \<open>
  The shape of what the loops return, used to state their invariants: a label exists when
  \<open>chr\<close> accepts its code point; a question carries the labels \<open>chr(65)\<close>,
  \<open>chr(66)\<close>, ... in order and bundles no longer than \<open>items_per_alternative\<close>; a
  survey carries the questions \<open>1, 2, ...\<close> in order.
\<close>

definition label_ok :: "int \<Rightarrow> bool" where
  "label_ok alt_id \<longleftrightarrow> 0 \<le> 65 + alt_id \<and> 65 + alt_id < 1114112"

definition question_ok :: "designer \<Rightarrow> question_rec \<Rightarrow> bool" where
  "question_ok d q \<longleftrightarrow>
     map alternative_id (alternatives q) = map (\<lambda>i. [nat (65 + i)]) [0..n_alternatives d - 1] \<and>
     (\<forall>a \<in> set (alternatives q). int (length (alt_benefits a)) \<le> items_per_alternative d)"

definition survey_ok :: "designer \<Rightarrow> survey_rec \<Rightarrow> bool" where
  "survey_ok d s \<longleftrightarrow>
     map question_id (questions s) = [1..n_questions d] \<and>
     (\<forall>q \<in> set (questions s). question_ok d q)"

section \<open>Floating-point results\<close>

text \<open>
  A pandas float column holds numbers, infinities and \<open>NaN\<close>. Numbers are modelled as exact
  reals: the rounding of \<open>float64\<close> is not modelled, the special values and the division by
  zero that produces them are. Dividing float columns raises nothing: \<open>0/0\<close> is \<open>NaN\<close> and
  \<open>x/0\<close> is an infinity of the sign of \<open>x\<close>.
\<close>

datatype pyfloat = Fin real | NaN | PosInf | NegInf

fun fdiv :: "pyfloat \<Rightarrow> pyfloat \<Rightarrow> pyfloat" where
  "fdiv (Fin x) (Fin y) =
     (if y \<noteq> 0 then Fin (x / y) else if x = 0 then NaN else if 0 < x then PosInf else NegInf)"
| "fdiv (Fin x) PosInf = Fin 0"
| "fdiv (Fin x) NegInf = Fin 0"
| "fdiv PosInf (Fin y) = (if 0 \<le> y then PosInf else NegInf)"
| "fdiv NegInf (Fin y) = (if 0 \<le> y then NegInf else PosInf)"
| "fdiv _ _ = NaN"

fun fmul :: "pyfloat \<Rightarrow> real \<Rightarrow> pyfloat" where
  "fmul (Fin x) c = Fin (x * c)"
| "fmul NaN c = NaN"
| "fmul PosInf c = (if 0 < c then PosInf else if c < 0 then NegInf else NaN)"
| "fmul NegInf c = (if 0 < c then NegInf else if c < 0 then PosInf else NaN)"

text \<open>
  \<open>Series.mean()\<close> of a non-empty column of numbers, without the rounding: the \<open>float64\<close>
  mean can differ from it in the last digits, also when all the numbers are equal.
\<close>

definition series_mean :: "real list \<Rightarrow> real" where
  "series_mean xs = sum_list xs / real (length xs)"

text \<open>
  \<open>Series.std()\<close>: the sample standard deviation (\<open>ddof = 1\<close>), which is \<open>NaN\<close> when the
  column has fewer than two values; that case involves no arithmetic. On two values or more
  the deviation is given without the rounding, so its value, and whether it is zero, is that
  of the code only up to rounding: no statement below rests on it.
\<close>

definition series_std :: "real list \<Rightarrow> pyfloat" where
  "series_std xs =
     (if length xs < 2 then NaN
      else Fin (sqrt (sum_list (map (\<lambda>x. (x - series_mean xs)\<^sup>2) xs) / real (length xs - 1))))"

text \<open>
  The key of \<open>sort_values(..., ascending=False)\<close>: larger values first, \<open>NaN\<close> last. The
  sort is modelled as the stable \<open>sort_key\<close>. pandas sorts with an unstable algorithm, so rows
  with equal keys can come out in another order than here: no statement below is about the
  order of the rows of a scorecard.
\<close>

fun descending_key :: "pyfloat \<Rightarrow> nat \<times> real" where
  "descending_key PosInf = (0, 0)"
| "descending_key (Fin x) = (1, - x)"
| "descending_key NegInf = (2, 0)"
| "descending_key NaN = (3, 0)"

section \<open>Data analysis engine (\<^verbatim>\<open>survey_analysis_app.py\<close>)\<close>

record response_row =
  resp_respondent_id :: int
  resp_question_id :: int
  resp_chosen_alternative :: cell

text \<open>A row of the merged frame: the design columns, then \<open>chosen_alternative\<close> and \<open>chosen\<close>.\<close>

record merged_row = design_row +
  chosen_alternative :: cell
  chosen :: int

record scorecard_entry =
  benefit :: pystr
  times_chosen :: int
  times_shown :: int
  choice_rate :: real
  utility_score :: pyfloat
  preference_pct :: real

record analyzer =
  design_df :: "design_row list"
  response_df :: "response_row list"
  merged_df :: "merged_row list option"
  results_df :: "scorecard_entry list option"

definition init_analyzer :: "design_row list \<Rightarrow> response_row list \<Rightarrow> analyzer" where
  "init_analyzer design response =
     \<lparr>design_df = design, response_df = response, merged_df = None, results_df = None\<rparr>"

text \<open>
  \<open>design_df.merge(response_df, on=[respondent_id, question_id], how='left')\<close>: every design
  row is kept, in order; it is paired with each response row of the same key, in the order of
  the response frame, or with a missing \<open>chosen_alternative\<close> when there is none. The frames
  are taken to have the columns the docstring of \<open>__init__\<close> names; a frame built from no
  row at all has no columns, and merging it raises \<open>KeyError\<close>, which is not modelled.
\<close>

definition matching_responses :: "design_row \<Rightarrow> response_row list \<Rightarrow> response_row list" where
  "matching_responses dr responses =
     filter (\<lambda>r. resp_respondent_id r = row_respondent_id dr \<and>
                  resp_question_id r = row_question_id dr) responses"

text \<open>
  \<open>merged['chosen'] = (merged['alternative'] == merged['chosen_alternative']).astype(int)\<close>:
  a missing value is equal to nothing.
\<close>

definition flag_chosen :: "design_row \<Rightarrow> cell \<Rightarrow> merged_row" where
  "flag_chosen dr c =
     \<lparr>row_respondent_id = row_respondent_id dr, row_question_id = row_question_id dr,
      alternative = alternative dr, benefit_cells = benefit_cells dr,
      chosen_alternative = c, chosen = (if c = Some (alternative dr) then 1 else 0)\<rparr>"

definition left_merge :: "design_row list \<Rightarrow> response_row list \<Rightarrow> merged_row list" where
  "left_merge design responses =
     concat (map (\<lambda>dr. case matching_responses dr responses of
                          [] \<Rightarrow> [flag_chosen dr None]
                        | rs \<Rightarrow> map (\<lambda>r. flag_chosen dr (resp_chosen_alternative r)) rs)
                 design)"

definition merge_data :: "analyzer \<Rightarrow> merged_row list \<times> analyzer" where
  "merge_data a =
     (let merged = left_merge (design_df a) (response_df a)
      in (merged, a\<lparr>merged_df := Some merged\<rparr>))"

record observation =
  obs_benefit :: pystr
  obs_chosen :: int
  obs_respondent_id :: int
  obs_question_id :: int

text \<open>The long format: one observation per benefit cell that is neither missing nor empty.\<close>

definition row_observations :: "merged_row \<Rightarrow> observation list" where
  "row_observations row =
     concat (map (\<lambda>c. case c of
                        None \<Rightarrow> []
                      | Some b \<Rightarrow> if b \<noteq> [] then
                                    [\<lparr>obs_benefit = b, obs_chosen = chosen row,
                                      obs_respondent_id = row_respondent_id row,
                                      obs_question_id = row_question_id row\<rparr>]
                                  else [])
                 (benefit_cells row))"

definition data_long :: "merged_row list \<Rightarrow> observation list" where
  "data_long merged = concat (map row_observations merged)"

text \<open>
  \<open>groupby('benefit').agg({'chosen': ['sum', 'count', 'mean']})\<close>: one row per distinct
  benefit, in ascending order of the benefit name.
\<close>

definition group_stats :: "observation list \<Rightarrow> pystr \<Rightarrow> int \<times> int \<times> real" where
  "group_stats obs b =
     (let grp = filter (\<lambda>ob. obs_benefit ob = b) obs;
          s = sum_list (map obs_chosen grp);
          n = int (length grp)
      in (s, n, real_of_int s / real_of_int n))"

definition benefit_stats :: "observation list \<Rightarrow> (pystr \<times> int \<times> int \<times> real) list" where
  "benefit_stats obs = map (\<lambda>b. (b, group_stats obs b)) (sort (remdups (map obs_benefit obs)))"

definition utility :: "real list \<Rightarrow> real \<Rightarrow> pyfloat" where
  "utility rates rate = fmul (fdiv (Fin (rate - series_mean rates)) (series_std rates)) 100"

definition score_entries :: "(pystr \<times> int \<times> int \<times> real) list \<Rightarrow> scorecard_entry list" where
  "score_entries stats =
     (let rates = map (\<lambda>(b, s, n, rate). rate) stats
      in map (\<lambda>(b, s, n, rate).
                \<lparr>benefit = b, times_chosen = s, times_shown = n, choice_rate = rate,
                 utility_score = utility rates rate, preference_pct = rate * 100\<rparr>) stats)"

text \<open>
  \<open>calculate_preference_scores\<close>. Iterating over \<open>merged_df\<close> while it is still \<open>None\<close>
  raises \<open>AttributeError\<close>; with no observation at all the long frame has no column
  \<open>benefit\<close> and \<open>groupby\<close> raises \<open>KeyError\<close>. The code takes the names of the benefit
  columns from \<open>design_df\<close> and reads them in the merged rows; the model reads the benefit
  cells of the merged rows, which are those columns when \<open>merged_df\<close> was set by
  \<open>merge_data\<close>.
\<close>

definition calculate_preference_scores ::
  "analyzer \<Rightarrow> py_error + scorecard_entry list \<times> analyzer" where
  "calculate_preference_scores a =
     (case merged_df a of
        None \<Rightarrow> Inl AttributeError
      | Some merged \<Rightarrow>
          (let obs = data_long merged
           in if obs = [] then Inl KeyError
              else (let stats = sort_key (\<lambda>e. descending_key (utility_score e))
                                         (score_entries (benefit_stats obs))
                    in Inr (stats, a\<lparr>results_df := Some stats\<rparr>))))"

text \<open>The value \<open>calculate_preference_scores\<close> returns when it returns: the scored groups,
  sorted.\<close>

definition scorecard_of :: "merged_row list \<Rightarrow> scorecard_entry list" where
  "scorecard_of merged =
     sort_key (\<lambda>e. descending_key (utility_score e))
       (score_entries (benefit_stats (data_long merged)))"

subsection \<open>The optional logit estimator\<close>

text \<open>
  \<open>statsmodels\<close> is not part of the program. It is a parameter: either the import fails, or
  the library is there and building and fitting \<open>MNLogit(y, X)\<close> raises or returns a fit. A
  fit says whether the optimiser converged; its \<open>params\<close> and \<open>pvalues\<close> are
  two-dimensional, one row per feature and one column per outcome other than the reference.
\<close>

record fit_result =
  converged :: bool
  params :: "pyfloat list list"
  pvalues :: "pyfloat list list"

datatype fit_outcome = Raises py_error | Returns fit_result

datatype statsmodels =
  NotInstalled | Installed "pystr list \<Rightarrow> int list list \<Rightarrow> int list \<Rightarrow> fit_outcome"

record logit_row =
  logit_benefit :: pystr
  coefficient :: pyfloat
  p_value :: pyfloat

text \<open>
  The distinct non-missing cells of the benefit columns. Python builds them through a
  \<open>set\<close>, whose iteration order is unspecified; nothing below depends on the order.
\<close>

definition all_benefits :: "design_row list \<Rightarrow> pystr list" where
  "all_benefits design =
     remdups (concat (map (\<lambda>row. concat (map (\<lambda>c. case c of None \<Rightarrow> [] | Some b \<Rightarrow> [b])
                                                (benefit_cells row))) design))"

definition features :: "pystr list \<Rightarrow> merged_row \<Rightarrow> int list" where
  "features bs row =
     map (\<lambda>b. if b \<noteq> [] \<and> Some b \<in> set (benefit_cells row) then 1 else 0) bs"

text \<open>
  \<open>pd.DataFrame({'benefit': all_benefits, 'coefficient': result.params, 'p_value':
  result.pvalues})\<close>: a column of a frame must be one-dimensional and \<open>params\<close> is not, so
  the constructor raises \<open>ValueError\<close> for every fit; the sort by coefficient that follows
  is never reached.
\<close>

definition logit_results_frame :: "pystr list \<Rightarrow> fit_result \<Rightarrow> py_error + logit_row list" where
  "logit_results_frame bs result = Inl ValueError"

text \<open>The body of the \<open>try\<close> block.\<close>

definition logit_body :: "statsmodels \<Rightarrow> analyzer \<Rightarrow> py_error + logit_row list" where
  "logit_body lib a =
     (case lib of
        NotInstalled \<Rightarrow> Inl ImportError
      | Installed fit \<Rightarrow>
          (let bs = all_benefits (design_df a)
           in case merged_df a of
                None \<Rightarrow> Inl AttributeError
              | Some merged \<Rightarrow>
                  (case fit bs (map (features bs) merged) (map chosen merged) of
                     Raises e \<Rightarrow> Inl e
                   | Returns result \<Rightarrow> logit_results_frame bs result)))"

text \<open>
  \<open>calculate_logit_regression\<close>: the only handler is \<open>except ImportError\<close>, which warns and
  returns \<open>None\<close>; every other exception leaves the function.
\<close>

definition calculate_logit_regression ::
  "statsmodels \<Rightarrow> analyzer \<Rightarrow> py_error + logit_row list option" where
  "calculate_logit_regression lib a =
     (case logit_body lib a of
        Inl e \<Rightarrow> if e = ImportError then Inr None else Inl e
      | Inr logit_results \<Rightarrow> Inr (Some logit_results))"

section \<open>Example inputs\<close>

definition example_catalog :: "pystr list" where
  "example_catalog = [[80], [81], [82]]"

definition example_designer :: designer where
  "example_designer = init_designer example_catalog 2 1 2"

definition small_designer :: designer where
  "small_designer = init_designer [[88], [89]] 2 1 1"

definition example_question :: question_rec where
  "example_question =
     \<lparr>question_id = 1,
      alternatives = [\<lparr>alternative_id = [65], alt_benefits = [[89]]\<rparr>,
                      \<lparr>alternative_id = [66], alt_benefits = [[88]]\<rparr>]\<rparr>"

definition example_surveys :: "survey_rec list" where
  "example_surveys = [\<lparr>respondent_id = 1, questions = [example_question]\<rparr>]"

text \<open>
  A design with one question and the alternatives \<open>A = {X}\<close> and \<open>B = {Y}\<close>, a response
  that chooses \<open>A\<close>, and a design whose only benefit is \<open>X\<close>.
\<close>

definition xy_design :: "design_row list" where
  "xy_design =
     [\<lparr>row_respondent_id = 1, row_question_id = 1, alternative = [65],
       benefit_cells = [Some [88]]\<rparr>,
      \<lparr>row_respondent_id = 1, row_question_id = 1, alternative = [66],
       benefit_cells = [Some [89]]\<rparr>]"

definition chose_A :: "response_row list" where
  "chose_A = [\<lparr>resp_respondent_id = 1, resp_question_id = 1,
               resp_chosen_alternative = Some [65]\<rparr>]"

definition single_design :: "design_row list" where
  "single_design =
     [\<lparr>row_respondent_id = 1, row_question_id = 1, alternative = [65],
       benefit_cells = [Some [88]]\<rparr>]"

definition single_merged :: analyzer where
  "single_merged = snd (merge_data (init_analyzer single_design chose_A))"

text \<open>A row of a second respondent, who did not answer.\<close>

definition unanswered_row :: design_row where
  "unanswered_row =
     \<lparr>row_respondent_id = 2, row_question_id = 1, alternative = [65],
      benefit_cells = [Some [88]]\<rparr>"

definition partly_answered :: analyzer where
  "partly_answered = init_analyzer (xy_design @ [unanswered_row]) chose_A"

text \<open>
  An estimator that rejects the data when the model is built, as the library does on data
  with a single outcome class, and a catalog that names a benefit twice.
\<close>

definition rejecting_fit :: "pystr list \<Rightarrow> int list list \<Rightarrow> int list \<Rightarrow> fit_outcome" where
  "rejecting_fit names X y = Raises AxisError"

definition repeating_designer :: designer where
  "repeating_designer = init_designer [[88], [88], [89]] 2 1 2"

section \<open>Properties\<close>

subsection \<open>Sampling without replacement\<close>

lemma removed_subset: "set (take i xs @ drop (Suc i) xs) \<subseteq> set xs"
  using set_take_subset [of i xs] set_drop_subset [of "Suc i" xs] by auto

lemma removed_distinct:
  assumes "distinct xs" "i < length xs"
  shows "distinct (take i xs @ drop (Suc i) xs) \<and> xs ! i \<notin> set (take i xs @ drop (Suc i) xs)"
proof -
  have "xs = take i xs @ xs ! i # drop (Suc i) xs"
    using assms(2) by (rule id_take_nth_drop)
  then have "distinct (take i xs @ xs ! i # drop (Suc i) xs)"
    using assms(1) by simp
  then show ?thesis by auto
qed

lemma arrangements_Suc_iff:
  "ys \<in> set (arrangements xs (Suc k)) \<longleftrightarrow>
     (\<exists>i < length xs. \<exists>zs \<in> set (arrangements (take i xs @ drop (Suc i) xs) k). ys = xs ! i # zs)"
  by auto

lemma arrangements_nonempty: "k \<le> length xs \<Longrightarrow> arrangements xs k \<noteq> []"
proof (induction k arbitrary: xs)
  case 0
  then show ?case by simp
next
  case (Suc k)
  from Suc.prems have len: "0 < length xs" by (cases xs) auto
  have "k \<le> length (take 0 xs @ drop (Suc 0) xs)" using Suc.prems by simp
  then have "arrangements (take 0 xs @ drop (Suc 0) xs) k \<noteq> []" by (rule Suc.IH)
  then obtain zs where "zs \<in> set (arrangements (take 0 xs @ drop (Suc 0) xs) k)"
    by (cases "arrangements (take 0 xs @ drop (Suc 0) xs) k") auto
  with len have "xs ! 0 # zs \<in> set (arrangements xs (Suc k))"
    unfolding arrangements_Suc_iff by blast
  then show ?case by (metis empty_iff empty_set)
qed

lemma arrangements_length: "ys \<in> set (arrangements xs k) \<Longrightarrow> length ys = k"
proof (induction k arbitrary: xs ys)
  case 0
  then show ?case by simp
next
  case (Suc k)
  then show ?case unfolding arrangements_Suc_iff by auto
qed

lemma arrangements_subset: "ys \<in> set (arrangements xs k) \<Longrightarrow> set ys \<subseteq> set xs"
proof (induction k arbitrary: xs ys)
  case 0
  then show ?case by simp
next
  case (Suc k)
  from Suc.prems obtain i zs where i: "i < length xs"
    and zs: "zs \<in> set (arrangements (take i xs @ drop (Suc i) xs) k)" and ys: "ys = xs ! i # zs"
    unfolding arrangements_Suc_iff by blast
  have "set zs \<subseteq> set (take i xs @ drop (Suc i) xs)" using zs by (rule Suc.IH)
  then have "set zs \<subseteq> set xs" using removed_subset [of i xs] by blast
  then show ?case using i ys by simp
qed

lemma arrangements_distinct_elem:
  "distinct xs \<Longrightarrow> ys \<in> set (arrangements xs k) \<Longrightarrow> distinct ys"
proof (induction k arbitrary: xs ys)
  case 0
  then show ?case by simp
next
  case (Suc k)
  from Suc.prems(2) obtain i zs where i: "i < length xs"
    and zs: "zs \<in> set (arrangements (take i xs @ drop (Suc i) xs) k)" and ys: "ys = xs ! i # zs"
    unfolding arrangements_Suc_iff by blast
  note rd = removed_distinct [OF Suc.prems(1) i]
  have "distinct zs" using rd zs Suc.IH by blast
  moreover have "xs ! i \<notin> set zs" using arrangements_subset [OF zs] rd by blast
  ultimately show ?case using ys by simp
qed

lemma arrangements_complete:
  "distinct xs \<Longrightarrow> distinct ys \<Longrightarrow> set ys \<subseteq> set xs \<Longrightarrow> length ys = k \<Longrightarrow>
   ys \<in> set (arrangements xs k)"
proof (induction k arbitrary: xs ys)
  case 0
  then show ?case by simp
next
  case (Suc k)
  from Suc.prems(4) obtain y zs where ys: "ys = y # zs" by (cases ys) auto
  with Suc.prems have "y \<in> set xs" by simp
  then obtain i where i: "i < length xs" and y: "xs ! i = y" by (auto simp: in_set_conv_nth)
  note rd = removed_distinct [OF Suc.prems(1) i]
  have "set xs = insert y (set (take i xs @ drop (Suc i) xs))"
    using id_take_nth_drop [OF i] y
    by (metis Un_insert_right list.simps(15) set_append)
  then have "set zs \<subseteq> set (take i xs @ drop (Suc i) xs)"
    using Suc.prems(2,3) ys by auto
  then have "zs \<in> set (arrangements (take i xs @ drop (Suc i) xs) k)"
    using Suc.IH rd Suc.prems(2,4) ys by simp
  then show ?case unfolding arrangements_Suc_iff using i y ys by blast
qed

lemma arrangements_distinct:
  "distinct xs \<Longrightarrow> k \<le> length xs \<Longrightarrow> distinct (arrangements xs k)"
proof (induction k arbitrary: xs)
  case 0
  then show ?case by simp
next
  case (Suc k)
  let ?f = "\<lambda>i. map ((#) (xs ! i)) (arrangements (take i xs @ drop (Suc i) xs) k)"
  have ne: "arrangements (take i xs @ drop (Suc i) xs) k \<noteq> []" if "i < length xs" for i
    using that Suc.prems(2) by (intro arrangements_nonempty) simp
  have inj: "?f i \<noteq> ?f j" if "i < length xs" "j < length xs" "i \<noteq> j" for i j
  proof (cases "?f i")
    case Nil then show ?thesis using ne [OF that(1)] by simp
  next
    case (Cons a as)
    then have "a \<in> set (?f i)" by simp
    then have "hd a = xs ! i" by auto
    moreover have "hd b = xs ! j" if "b \<in> set (?f j)" for b using that by auto
    moreover have "xs ! i \<noteq> xs ! j" using that Suc.prems by (simp add: nth_eq_iff_index_eq)
    ultimately show ?thesis using \<open>a \<in> set (?f i)\<close> by metis
  qed
  show ?case
    unfolding arrangements.simps
  proof (rule distinct_concat)
    show "distinct (map ?f [0..<length xs])"
      unfolding distinct_map
    proof (intro conjI inj_onI)
      fix x y assume "x \<in> set [0..<length xs]" "y \<in> set [0..<length xs]" "?f x = ?f y"
      then show "x = y" using inj [of x y] by auto
    qed simp
  next
    fix ys assume "ys \<in> set (map ?f [0..<length xs])"
    then obtain i where i: "i < length xs" and ys: "ys = ?f i" by auto
    have "distinct (arrangements (take i xs @ drop (Suc i) xs) k)"
      using Suc.IH removed_distinct [OF Suc.prems(1) i] Suc.prems(2) i by simp
    then show "distinct ys" unfolding ys by (simp add: distinct_map)
  next
    fix ys zs assume "ys \<in> set (map ?f [0..<length xs])" "zs \<in> set (map ?f [0..<length xs])" "ys \<noteq> zs"
    then obtain i j where i: "i < length xs" "ys = ?f i" and j: "j < length xs" "zs = ?f j" by auto
    with \<open>ys \<noteq> zs\<close> have "i \<noteq> j" by auto
    then have "xs ! i \<noteq> xs ! j" using i j Suc.prems by (simp add: nth_eq_iff_index_eq)
    then show "set ys \<inter> set zs = {}" using i j by auto
  qed
qed

subsection \<open>Sequencing of outcomes\<close>

lemma bind_Nil [simp]: "bind_outcomes [] f = []"
  by (simp add: bind_outcomes_def)

lemma bind_Cons_Inl [simp]: "bind_outcomes (Inl e # m) f = Inl e # bind_outcomes m f"
  by (simp add: bind_outcomes_def)

lemma bind_Cons_Inr [simp]: "bind_outcomes (Inr x # m) f = f x @ bind_outcomes m f"
  by (simp add: bind_outcomes_def)

lemma Inr_in_bind:
  "Inr y \<in> set (bind_outcomes m f) \<longleftrightarrow> (\<exists>x. Inr x \<in> set m \<and> Inr y \<in> set (f x))"
proof (induction m)
  case Nil
  then show ?case by simp
next
  case (Cons r m)
  then show ?case by (cases r) auto
qed

lemma Inl_in_bind:
  "Inl e \<in> set (bind_outcomes m f) \<longleftrightarrow>
     Inl e \<in> set m \<or> (\<exists>x. Inr x \<in> set m \<and> Inl e \<in> set (f x))"
proof (induction m)
  case Nil
  then show ?case by simp
next
  case (Cons r m)
  then show ?case by (cases r) auto
qed

lemma bind_nonempty:
  assumes "m \<noteq> []" and "\<And>x. Inr x \<in> set m \<Longrightarrow> f x \<noteq> []"
  shows "bind_outcomes m f \<noteq> []"
proof (cases m)
  case Nil
  with assms(1) show ?thesis by simp
next
  case (Cons r m')
  then show ?thesis using assms(2) by (cases r) auto
qed

subsection \<open>The bundle sampler\<close>

lemma available_benefits_cases:
  "available_benefits d ex =
     (if fallback_triggered d ex then benefits d else filter (\<lambda>b. b \<notin> ex) (benefits d))"
  by (simp add: available_benefits_def fallback_triggered_def Let_def)

lemma bundle_outcomes_nonneg:
  assumes "0 \<le> items_per_alternative d"
  shows "generate_random_bundle d ex =
           map Inr (arrangements (available_benefits d ex)
                      (nat (min (items_per_alternative d) (int (length (available_benefits d ex))))))"
  using assms by (simp add: generate_random_bundle_def random_sample_def Let_def)

lemma bundle_outcomes_negative:
  assumes "items_per_alternative d < 0"
  shows "generate_random_bundle d ex = [Inl ValueError]"
  using assms by (simp add: generate_random_bundle_def random_sample_def Let_def)

lemma bundle_outcomes_empty:
  assumes "items_per_alternative d = 0 \<or> benefits d = [] \<and> 0 \<le> items_per_alternative d"
  shows "generate_random_bundle d ex = [Inr []]"
proof -
  have "nat (min (items_per_alternative d) (int (length (available_benefits d ex)))) = 0"
    using assms by (auto simp: available_benefits_def Let_def)
  then show ?thesis
    using assms bundle_outcomes_nonneg [of d ex] by auto
qed

lemma bundle_no_error:
  "0 \<le> items_per_alternative d \<Longrightarrow> Inl e \<notin> set (generate_random_bundle d ex)"
  by (auto simp: bundle_outcomes_nonneg)

lemma bundle_nonempty:
  "0 \<le> items_per_alternative d \<Longrightarrow> generate_random_bundle d ex \<noteq> []"
  by (simp add: bundle_outcomes_nonneg arrangements_nonempty)

lemma bundle_length:
  assumes "Inr bundle \<in> set (generate_random_bundle d ex)"
  shows "int (length bundle) =
           min (items_per_alternative d) (int (length (available_benefits d ex)))"
proof (cases "0 \<le> items_per_alternative d")
  case True
  with assms have "bundle \<in> set (arrangements (available_benefits d ex)
      (nat (min (items_per_alternative d) (int (length (available_benefits d ex))))))"
    by (auto simp: bundle_outcomes_nonneg)
  then show ?thesis using True by (simp add: arrangements_length)
next
  case False
  with assms show ?thesis by (simp add: bundle_outcomes_negative)
qed

lemma bundle_length_le:
  "Inr bundle \<in> set (generate_random_bundle d ex) \<Longrightarrow>
   int (length bundle) \<le> items_per_alternative d"
  by (simp add: bundle_length)

lemma bundle_subset:
  assumes "Inr bundle \<in> set (generate_random_bundle d ex)"
  shows "set bundle \<subseteq> set (available_benefits d ex)"
proof (cases "0 \<le> items_per_alternative d")
  case True
  with assms show ?thesis by (auto simp: bundle_outcomes_nonneg dest: arrangements_subset)
next
  case False
  with assms show ?thesis by (simp add: bundle_outcomes_negative)
qed

subsection \<open>The loops of the generator\<close>

lemma chr_label_ok: "label_ok i \<Longrightarrow> chr (65 + i) = Inr [nat (65 + i)]"
  by (simp add: chr_def label_ok_def)

lemma question_loop_Inr_Cons:
  "Inr alts' \<in> set (question_loop d (i # rest) alts used) \<longleftrightarrow>
     (\<exists>bundle c. Inr bundle \<in> set (generate_random_bundle d used) \<and> chr (65 + i) = Inr c \<and>
        Inr alts' \<in> set (question_loop d rest
            (alts @ [\<lparr>alternative_id = c, alt_benefits = bundle\<rparr>]) (used \<union> set bundle)))"
  by (cases "chr (65 + i)") (auto simp: Inr_in_bind)

lemma question_loop_no_error:
  assumes "0 \<le> items_per_alternative d" and "\<forall>i \<in> set ids. label_ok i"
  shows "Inl e \<notin> set (question_loop d ids alts used)"
  using assms(2)
proof (induction ids arbitrary: alts used)
  case Nil
  then show ?case by simp
next
  case (Cons i rest)
  then show ?case
    using bundle_no_error [OF assms(1)] by (auto simp: Inl_in_bind chr_label_ok)
qed

lemma question_loop_nonempty:
  assumes "0 \<le> items_per_alternative d" and "\<forall>i \<in> set ids. label_ok i"
  shows "question_loop d ids alts used \<noteq> []"
  using assms(2)
proof (induction ids arbitrary: alts used)
  case Nil
  then show ?case by simp
next
  case (Cons i rest)
  show ?case
    unfolding question_loop.simps
  proof (rule bind_nonempty)
    show "generate_random_bundle d used \<noteq> []" using assms(1) by (rule bundle_nonempty)
  next
    fix bs
    show "(case chr (65 + i) of Inl e \<Rightarrow> [Inl e]
           | Inr c \<Rightarrow> question_loop d rest
                 (alts @ [\<lparr>alternative_id = c, alt_benefits = bs\<rparr>]) (used \<union> set bs)) \<noteq> []"
      using Cons by (simp add: chr_label_ok)
  qed
qed

lemma question_loop_shape:
  assumes "Inr alts' \<in> set (question_loop d ids alts used)"
  shows "\<exists>new. alts' = alts @ new \<and>
           map alternative_id new = map (\<lambda>i. [nat (65 + i)]) ids \<and>
           (\<forall>i \<in> set ids. label_ok i) \<and>
           (\<forall>a \<in> set new. int (length (alt_benefits a)) \<le> items_per_alternative d)"
  using assms
proof (induction ids arbitrary: alts used)
  case Nil
  then show ?case by simp
next
  case (Cons i rest)
  from Cons.prems obtain bs c where
    b: "Inr bs \<in> set (generate_random_bundle d used)" and c: "chr (65 + i) = Inr c" and
    r: "Inr alts' \<in> set (question_loop d rest
          (alts @ [\<lparr>alternative_id = c, alt_benefits = bs\<rparr>]) (used \<union> set bs))"
    unfolding question_loop_Inr_Cons by blast
  from c have ok: "label_ok i" and c': "c = [nat (65 + i)]"
    by (auto simp: chr_def label_ok_def split: if_splits)
  from Cons.IH [OF r] obtain new where
    new: "alts' = (alts @ [\<lparr>alternative_id = c, alt_benefits = bs\<rparr>]) @ new"
      "map alternative_id new = map (\<lambda>i. [nat (65 + i)]) rest"
      "\<forall>i \<in> set rest. label_ok i"
      "\<forall>a \<in> set new. int (length (alt_benefits a)) \<le> items_per_alternative d"
    by blast
  let ?new = "\<lparr>alternative_id = c, alt_benefits = bs\<rparr> # new"
  have "alts' = alts @ ?new" using new(1) by simp
  moreover have "map alternative_id ?new = map (\<lambda>i. [nat (65 + i)]) (i # rest)"
    using new(2) c' by simp
  moreover have "\<forall>i \<in> set (i # rest). label_ok i" using ok new(3) by simp
  moreover have "\<forall>a \<in> set ?new. int (length (alt_benefits a)) \<le> items_per_alternative d"
    using new(4) bundle_length_le [OF b] by simp
  ultimately have "alts' = alts @ ?new \<and>
      map alternative_id ?new = map (\<lambda>i. [nat (65 + i)]) (i # rest) \<and>
      (\<forall>i \<in> set (i # rest). label_ok i) \<and>
      (\<forall>a \<in> set ?new. int (length (alt_benefits a)) \<le> items_per_alternative d)"
    by (intro conjI)
  then show ?case by (rule exI)
qed

lemma generate_question_Inr:
  "Inr q \<in> set (generate_question d q_id) \<longleftrightarrow>
     question_id q = q_id \<and>
     Inr (alternatives q) \<in> set (question_loop d [0..n_alternatives d - 1] [] {})"
  by (cases q) (auto simp: generate_question_def Inr_in_bind)

lemma generate_question_Inl:
  "Inl e \<in> set (generate_question d q_id) \<longleftrightarrow>
     Inl e \<in> set (question_loop d [0..n_alternatives d - 1] [] {})"
  by (auto simp: generate_question_def Inl_in_bind)

lemma generate_question_shape:
  assumes "Inr q \<in> set (generate_question d q_id)"
  shows "question_id q = q_id \<and> question_ok d q"
  using assms question_loop_shape [of "alternatives q" d "[0..n_alternatives d - 1]" "[]" "{}"]
  by (auto simp: generate_question_Inr question_ok_def)

lemma labels_ok_upto: "n \<le> 1114047 \<Longrightarrow> \<forall>i \<in> set [0..n - 1]. label_ok i"
  by (auto simp: label_ok_def)

lemma generate_question_no_error:
  assumes "0 \<le> items_per_alternative d" and "n_alternatives d \<le> 1114047"
  shows "Inl e \<notin> set (generate_question d q_id)"
  using question_loop_no_error [OF assms(1) labels_ok_upto [OF assms(2)]]
  by (simp add: generate_question_Inl)

lemma generate_question_nonempty:
  assumes "0 \<le> items_per_alternative d" and "n_alternatives d \<le> 1114047"
  shows "generate_question d q_id \<noteq> []"
  unfolding generate_question_def
  using question_loop_nonempty [OF assms(1) labels_ok_upto [OF assms(2)]]
  by (intro bind_nonempty) auto

lemma questions_loop_shape:
  assumes "Inr qs' \<in> set (questions_loop d ids qs)"
  shows "\<exists>new. qs' = qs @ new \<and> map question_id new = ids \<and> (\<forall>q \<in> set new. question_ok d q)"
  using assms
proof (induction ids arbitrary: qs)
  case Nil
  then show ?case by simp
next
  case (Cons i rest)
  from Cons.prems obtain q where q: "Inr q \<in> set (generate_question d i)"
    and r: "Inr qs' \<in> set (questions_loop d rest (qs @ [q]))"
    by (auto simp: Inr_in_bind)
  from Cons.IH [OF r] obtain new where
    new: "qs' = (qs @ [q]) @ new" "map question_id new = rest" "\<forall>q \<in> set new. question_ok d q"
    by blast
  have "qs' = qs @ (q # new)" using new(1) by simp
  moreover have "map question_id (q # new) = i # rest"
    using new(2) generate_question_shape [OF q] by simp
  moreover have "\<forall>q \<in> set (q # new). question_ok d q"
    using new(3) generate_question_shape [OF q] by simp
  ultimately have "qs' = qs @ (q # new) \<and> map question_id (q # new) = i # rest \<and>
      (\<forall>q \<in> set (q # new). question_ok d q)"
    by (intro conjI)
  then show ?case by (rule exI)
qed

lemma questions_loop_no_error:
  assumes "0 \<le> items_per_alternative d" and "n_alternatives d \<le> 1114047"
  shows "Inl e \<notin> set (questions_loop d ids qs)"
  by (induction ids arbitrary: qs)
     (auto simp: Inl_in_bind generate_question_no_error [OF assms])

lemma questions_loop_nonempty:
  assumes "0 \<le> items_per_alternative d" and "n_alternatives d \<le> 1114047"
  shows "questions_loop d ids qs \<noteq> []"
proof (induction ids arbitrary: qs)
  case Nil
  then show ?case by simp
next
  case (Cons i rest)
  show ?case
    unfolding questions_loop.simps
    by (rule bind_nonempty) (use Cons generate_question_nonempty [OF assms] in auto)
qed

lemma survey_loop_shape:
  assumes "Inr ss' \<in> set (survey_loop d ids ss)"
  shows "\<exists>new. ss' = ss @ new \<and> map respondent_id new = ids \<and> (\<forall>s \<in> set new. survey_ok d s)"
  using assms
proof (induction ids arbitrary: ss)
  case Nil
  then show ?case by simp
next
  case (Cons i rest)
  from Cons.prems obtain qs where qs: "Inr qs \<in> set (questions_loop d [1..n_questions d] [])"
    and r: "Inr ss' \<in> set (survey_loop d rest (ss @ [\<lparr>respondent_id = i, questions = qs\<rparr>]))"
    by (auto simp: Inr_in_bind)
  let ?s = "\<lparr>respondent_id = i, questions = qs\<rparr>"
  from Cons.IH [OF r] obtain new where
    new: "ss' = (ss @ [?s]) @ new" "map respondent_id new = rest" "\<forall>s \<in> set new. survey_ok d s"
    by blast
  have ok: "survey_ok d ?s"
    using questions_loop_shape [OF qs] by (auto simp: survey_ok_def)
  have "ss' = ss @ (?s # new)" using new(1) by simp
  moreover have "map respondent_id (?s # new) = i # rest" using new(2) by simp
  moreover have "\<forall>s \<in> set (?s # new). survey_ok d s" using new(3) ok by simp
  ultimately have "ss' = ss @ (?s # new) \<and> map respondent_id (?s # new) = i # rest \<and>
      (\<forall>s \<in> set (?s # new). survey_ok d s)"
    by (intro conjI)
  then show ?case by (rule exI)
qed

lemma survey_loop_no_error:
  assumes "0 \<le> items_per_alternative d" and "n_alternatives d \<le> 1114047"
  shows "Inl e \<notin> set (survey_loop d ids ss)"
  by (induction ids arbitrary: ss)
     (auto simp: Inl_in_bind questions_loop_no_error [OF assms])

lemma survey_loop_nonempty:
  assumes "0 \<le> items_per_alternative d" and "n_alternatives d \<le> 1114047"
  shows "survey_loop d ids ss \<noteq> []"
proof (induction ids arbitrary: ss)
  case Nil
  then show ?case by simp
next
  case (Cons i rest)
  show ?case
    unfolding survey_loop.simps
    by (rule bind_nonempty) (use Cons questions_loop_nonempty [OF assms] in auto)
qed

lemma generate_survey_shape:
  assumes "Inr surveys \<in> set (generate_survey d n)"
  shows "map respondent_id surveys = [1..n] \<and> (\<forall>s \<in> set surveys. survey_ok d s)"
  using survey_loop_shape [OF assms [unfolded generate_survey_def]] by auto


subsection \<open>The bundle sampler\<close>

lemma example_designer_fields:
  "benefits example_designer = [[80], [81], [82]]"
  "n_alternatives example_designer = 2"
  "n_questions example_designer = 1"
  "items_per_alternative example_designer = 2"
  by (simp_all add: example_designer_def init_designer_def example_catalog_def)

text \<open>Picking elements is picking positions and reading the elements there.\<close>

lemma arrangements_map: "arrangements (map f ys) k = map (map f) (arrangements ys k)"
proof (induction k arbitrary: ys)
  case 0
  then show ?case by simp
next
  case (Suc k)
  have "map (\<lambda>i. map ((#) (map f ys ! i))
                (arrangements (take i (map f ys) @ drop (Suc i) (map f ys)) k))
            [0..<length ys] =
        map (\<lambda>i. map (map f) (map ((#) (ys ! i))
                (arrangements (take i ys @ drop (Suc i) ys) k)))
            [0..<length ys]"
  proof (rule map_cong [OF refl])
    fix i assume "i \<in> set [0..<length ys]"
    then have i: "i < length ys" by simp
    have "take i (map f ys) @ drop (Suc i) (map f ys) = map f (take i ys @ drop (Suc i) ys)"
      by (simp add: take_map drop_map)
    then have "arrangements (take i (map f ys) @ drop (Suc i) (map f ys)) k =
        map (map f) (arrangements (take i ys @ drop (Suc i) ys) k)"
      by (simp only: Suc.IH)
    then show "map ((#) (map f ys ! i))
          (arrangements (take i (map f ys) @ drop (Suc i) (map f ys)) k) =
        map (map f) (map ((#) (ys ! i)) (arrangements (take i ys @ drop (Suc i) ys) k))"
      using i by simp
  qed
  then have "arrangements (map f ys) (Suc k) =
      concat (map (\<lambda>i. map (map f) (map ((#) (ys ! i))
                (arrangements (take i ys @ drop (Suc i) ys) k))) [0..<length ys])"
    by (simp only: arrangements.simps length_map)
  also have "\<dots> = map (map f) (arrangements ys (Suc k))"
    by (simp add: map_concat comp_def)
  finally show ?case .
qed

lemma arrangements_by_position:
  "arrangements xs k = map (map ((!) xs)) (arrangements [0..<length xs] k)"
  using arrangements_map [of "(!) xs" "[0..<length xs]" k] by (simp add: map_nth)

lemma position_arrangements_iff:
  assumes "k \<le> n"
  shows "ps \<in> set (arrangements [0..<n] k) \<longleftrightarrow>
           length ps = k \<and> distinct ps \<and> set ps \<subseteq> {0..<n}"
proof
  assume ps: "ps \<in> set (arrangements [0..<n] k)"
  have "distinct ps" using arrangements_distinct_elem [OF _ ps] by simp
  moreover have "set ps \<subseteq> {0..<n}" using arrangements_subset [OF ps] by simp
  ultimately show "length ps = k \<and> distinct ps \<and> set ps \<subseteq> {0..<n}"
    using arrangements_length [OF ps] by simp
next
  assume "length ps = k \<and> distinct ps \<and> set ps \<subseteq> {0..<n}"
  then show "ps \<in> set (arrangements [0..<n] k)"
    by (intro arrangements_complete) simp_all
qed

text \<open>
  C7, as the code has it. The sampler keeps the catalog entries outside the exclusion set;
  when fewer than \<open>items_per_alternative\<close> are left it takes the whole catalog instead. With
  \<open>items_per_alternative\<close> not negative it raises nothing, and its outcomes are the names
  read at \<open>m = min(items_per_alternative, |available|)\<close> distinct positions of what is
  available, one outcome for every sequence of \<open>m\<close> distinct positions: a uniform draw
  without replacement over positions. The names of a bundle are pairwise distinct when the
  catalog names no benefit twice; the outcomes are then pairwise different and are all the
  sequences of \<open>m\<close> distinct available names. A negative \<open>items_per_alternative\<close> makes the
  draw raise \<open>ValueError\<close>.
\<close>

theorem bundle_sampler:
  "let available = filter (\<lambda>b. b \<notin> exclusion) (benefits d);
       pool = (if int (length available) < items_per_alternative d
               then benefits d else available);
       m = nat (min (items_per_alternative d) (int (length pool)))
   in (items_per_alternative d < 0 \<longrightarrow>
         generate_random_bundle d exclusion = [Inl ValueError]) \<and>
      (0 \<le> items_per_alternative d \<longrightarrow>
         generate_random_bundle d exclusion =
           map (\<lambda>ps. Inr (map ((!) pool) ps)) (arrangements [0..<length pool] m) \<and>
         arrangements [0..<length pool] m \<noteq> [] \<and>
         distinct (arrangements [0..<length pool] m) \<and>
         (\<forall>ps. ps \<in> set (arrangements [0..<length pool] m) \<longleftrightarrow>
                length ps = m \<and> distinct ps \<and> set ps \<subseteq> {0..<length pool}) \<and>
         (distinct (benefits d) \<longrightarrow>
            distinct (generate_random_bundle d exclusion) \<and>
            (\<forall>names. Inr names \<in> set (generate_random_bundle d exclusion) \<longleftrightarrow>
                     length names = m \<and> distinct names \<and> set names \<subseteq> set pool)))"
proof -
  let ?pool = "available_benefits d exclusion"
  let ?m = "nat (min (items_per_alternative d) (int (length ?pool)))"
  have pool: "?pool = (if int (length (filter (\<lambda>b. b \<notin> exclusion) (benefits d)))
                           < items_per_alternative d
                       then benefits d else filter (\<lambda>b. b \<notin> exclusion) (benefits d))"
    by (simp add: available_benefits_def Let_def)
  have le: "?m \<le> length ?pool" by simp
  have neg: "generate_random_bundle d exclusion = [Inl ValueError]"
    if "items_per_alternative d < 0"
    using that by (rule bundle_outcomes_negative)
  have pos: "generate_random_bundle d exclusion =
        map (\<lambda>ps. Inr (map ((!) ?pool) ps)) (arrangements [0..<length ?pool] ?m) \<and>
      arrangements [0..<length ?pool] ?m \<noteq> [] \<and>
      distinct (arrangements [0..<length ?pool] ?m) \<and>
      (\<forall>ps. ps \<in> set (arrangements [0..<length ?pool] ?m) \<longleftrightarrow>
             length ps = ?m \<and> distinct ps \<and> set ps \<subseteq> {0..<length ?pool}) \<and>
      (distinct (benefits d) \<longrightarrow>
         distinct (generate_random_bundle d exclusion) \<and>
         (\<forall>names. Inr names \<in> set (generate_random_bundle d exclusion) \<longleftrightarrow>
                  length names = ?m \<and> distinct names \<and> set names \<subseteq> set ?pool))"
    if nonneg: "0 \<le> items_per_alternative d"
  proof -
    have out: "generate_random_bundle d exclusion = map Inr (arrangements ?pool ?m)"
      using nonneg by (rule bundle_outcomes_nonneg)
    have 1: "generate_random_bundle d exclusion =
        map (\<lambda>ps. Inr (map ((!) ?pool) ps)) (arrangements [0..<length ?pool] ?m)"
      unfolding out by (subst arrangements_by_position) (simp add: comp_def)
    have 2: "arrangements [0..<length ?pool] ?m \<noteq> []"
      using le by (intro arrangements_nonempty) simp
    have 3: "distinct (arrangements [0..<length ?pool] ?m)"
      using le by (intro arrangements_distinct) simp_all
    have 4: "\<forall>ps. ps \<in> set (arrangements [0..<length ?pool] ?m) \<longleftrightarrow>
        length ps = ?m \<and> distinct ps \<and> set ps \<subseteq> {0..<length ?pool}"
      using position_arrangements_iff [OF le] by blast
    have 5: "distinct (generate_random_bundle d exclusion) \<and>
        (\<forall>names. Inr names \<in> set (generate_random_bundle d exclusion) \<longleftrightarrow>
                 length names = ?m \<and> distinct names \<and> set names \<subseteq> set ?pool)"
      if dc: "distinct (benefits d)"
    proof -
      have dp: "distinct ?pool" using dc by (simp add: pool)
      have "distinct (generate_random_bundle d exclusion)"
        unfolding out using arrangements_distinct [OF dp le] by (simp add: distinct_map)
      moreover have "Inr names \<in> set (generate_random_bundle d exclusion) \<longleftrightarrow>
          length names = ?m \<and> distinct names \<and> set names \<subseteq> set ?pool" for names
      proof
        assume "Inr names \<in> set (generate_random_bundle d exclusion)"
        then have n: "names \<in> set (arrangements ?pool ?m)" unfolding out by auto
        show "length names = ?m \<and> distinct names \<and> set names \<subseteq> set ?pool"
          using arrangements_length [OF n] arrangements_distinct_elem [OF dp n]
            arrangements_subset [OF n] by simp
      next
        assume "length names = ?m \<and> distinct names \<and> set names \<subseteq> set ?pool"
        then have "names \<in> set (arrangements ?pool ?m)"
          using arrangements_complete [OF dp] by blast
        then show "Inr names \<in> set (generate_random_bundle d exclusion)"
          unfolding out by simp
      qed
      ultimately show ?thesis by blast
    qed
    from 1 2 3 4 5 show ?thesis by blast
  qed
  show ?thesis
    unfolding Let_def pool [symmetric] using neg pos by blast
qed

theorem bundle_sampler_witness:
  "0 \<le> items_per_alternative example_designer \<and> distinct (benefits example_designer) \<and>
   generate_random_bundle example_designer {[80], [81]} =
     [Inr [[80], [81]], Inr [[80], [82]], Inr [[81], [80]],
      Inr [[81], [82]], Inr [[82], [80]], Inr [[82], [81]]] \<and>
   distinct (generate_random_bundle example_designer {[80], [81]}) \<and>
   Inr [[82], [80]] \<in> set (generate_random_bundle example_designer {[80], [81]}) \<and>
   items_per_alternative (init_designer [[88]] 2 1 (- 1)) < 0 \<and>
   generate_random_bundle (init_designer [[88]] 2 1 (- 1)) {} = [Inl ValueError]"
proof -
  have h1: "0 \<le> items_per_alternative example_designer"
    by (simp add: example_designer_fields)
  have h2: "distinct (benefits example_designer)"
    by (simp add: example_designer_fields)
  have h3: "items_per_alternative (init_designer [[88]] 2 1 (- 1)) < 0"
    by (simp add: init_designer_def)
  have ev: "generate_random_bundle example_designer {[80], [81]} =
     [Inr [[80], [81]], Inr [[80], [82]], Inr [[81], [80]],
      Inr [[81], [82]], Inr [[82], [80]], Inr [[82], [81]]]"
    by (simp add: generate_random_bundle_def available_benefits_def random_sample_def
        example_designer_fields Let_def numeral_2_eq_2 upt_rec)
  have pool: "(if int (length (filter (\<lambda>b. b \<notin> {[80], [81]}) (benefits example_designer)))
                   < items_per_alternative example_designer
               then benefits example_designer
               else filter (\<lambda>b. b \<notin> {[80], [81]}) (benefits example_designer)) =
              [[80], [81], [82]]"
    by (simp add: example_designer_fields)
  have size: "nat (min (items_per_alternative example_designer)
                       (int (length [[80::nat], [81], [82]]))) = 2"
    by (simp add: example_designer_fields)
  note sampler = bundle_sampler [of "{[80], [81]}" example_designer,
      unfolded Let_def pool size]
  from sampler h1 h2
  have d: "distinct (generate_random_bundle example_designer {[80], [81]})"
    and all: "\<forall>names. Inr names \<in> set (generate_random_bundle example_designer {[80], [81]}) \<longleftrightarrow>
        length names = 2 \<and> distinct names \<and> set names \<subseteq> set [[80], [81], [82]]"
    by blast+
  from all have m: "Inr [[82], [80]] \<in> set (generate_random_bundle example_designer {[80], [81]})"
    by simp
  from bundle_sampler [of "{}" "init_designer [[88]] 2 1 (- 1)"] h3
  have e: "generate_random_bundle (init_designer [[88]] 2 1 (- 1)) {} = [Inl ValueError]"
    by (simp add: Let_def)
  from h1 h2 ev d m h3 e show ?thesis by (intro conjI)
qed

lemma repeating_designer_fields:
  "benefits repeating_designer = [[88], [88], [89]]"
  "items_per_alternative repeating_designer = 2"
  by (simp_all add: repeating_designer_def init_designer_def)

text \<open>
  The claim as it is written promises distinct names for every catalog. On a catalog that
  names a benefit twice the draw can return that name twice.
\<close>

theorem repeated_name_in_bundle:
  "generate_random_bundle repeating_designer {} =
     [Inr [[88], [88]], Inr [[88], [89]], Inr [[88], [88]],
      Inr [[88], [89]], Inr [[89], [88]], Inr [[89], [88]]]"
  by (simp add: generate_random_bundle_def available_benefits_def random_sample_def
      repeating_designer_fields Let_def numeral_2_eq_2 upt_rec)


subsection \<open>The size of the exported design\<close>

lemma benefit_cols_padded:
  assumes "int (length bs) \<le> items_per_alternative d"
  shows "benefit_cols d bs =
           map Some bs @ replicate (nat (items_per_alternative d) - length bs) (Some [])"
proof (rule nth_equalityI)
  show "length (benefit_cols d bs) =
          length (map Some bs @ replicate (nat (items_per_alternative d) - length bs) (Some []))"
    using assms by (simp add: benefit_cols_def)
next
  fix i assume "i < length (benefit_cols d bs)"
  then have "i < nat (items_per_alternative d)" by (simp add: benefit_cols_def)
  then show "benefit_cols d bs ! i =
          (map Some bs @ replicate (nat (items_per_alternative d) - length bs) (Some [])) ! i"
    by (simp add: benefit_cols_def nth_append)
qed

lemma length_benefit_cols: "length (benefit_cols d bs) = nat (items_per_alternative d)"
  by (simp add: benefit_cols_def)

lemma sum_list_all_equal:
  "\<forall>x \<in> set xs. f x = (c::nat) \<Longrightarrow> sum_list (map f xs) = length xs * c"
  by (induction xs) auto

lemma question_ok_length:
  "question_ok d q \<Longrightarrow> length (alternatives q) = nat (n_alternatives d)"
  using length_map [of alternative_id "alternatives q"] by (simp add: question_ok_def)

lemma survey_ok_length: "survey_ok d s \<Longrightarrow> length (questions s) = nat (n_questions d)"
  using length_map [of question_id "questions s"] by (simp add: survey_ok_def)

lemma length_export:
  assumes "Inr surveys \<in> set (generate_survey d n)"
  shows "length (export_to_csv d surveys) =
           nat n * (nat (n_questions d) * nat (n_alternatives d))"
proof -
  from generate_survey_shape [OF assms]
  have ids: "map respondent_id surveys = [1..n]" and ok: "\<forall>s \<in> set surveys. survey_ok d s"
    by simp_all
  have len: "length surveys = nat n"
    using length_map [of respondent_id surveys] by (simp add: ids)
  have per_survey: "sum_list (map (\<lambda>q. length (alternatives q)) (questions s)) =
      nat (n_questions d) * nat (n_alternatives d)" if "s \<in> set surveys" for s
  proof -
    from ok that have s: "survey_ok d s" by blast
    then have "\<forall>q \<in> set (questions s). length (alternatives q) = nat (n_alternatives d)"
      by (simp add: survey_ok_def question_ok_length)
    then show ?thesis
      using sum_list_all_equal [of "questions s" "\<lambda>q. length (alternatives q)"]
        survey_ok_length [OF s] by simp
  qed
  have "length (export_to_csv d surveys) =
      sum_list (map (\<lambda>s. sum_list (map (\<lambda>q. length (alternatives q)) (questions s))) surveys)"
    by (simp add: export_to_csv_def length_concat comp_def)
  also have "\<dots> = length surveys * (nat (n_questions d) * nat (n_alternatives d))"
    by (rule sum_list_all_equal) (simp add: per_survey)
  finally show ?thesis by (simp add: len)
qed

lemma export_row_cells:
  assumes "Inr surveys \<in> set (generate_survey d n)" and "row \<in> set (export_to_csv d surveys)"
  shows "\<exists>s \<in> set surveys. \<exists>q \<in> set (questions s). \<exists>a \<in> set (alternatives q).
           int (length (alt_benefits a)) \<le> items_per_alternative d \<and>
           row = \<lparr>row_respondent_id = respondent_id s, row_question_id = question_id q,
                  alternative = alternative_id a,
                  benefit_cells = benefit_cols d (alt_benefits a)\<rparr>"
proof -
  from generate_survey_shape [OF assms(1)] have ok: "\<forall>s \<in> set surveys. survey_ok d s"
    by simp
  from assms(2) obtain s q a where sqa: "s \<in> set surveys" "q \<in> set (questions s)"
    "a \<in> set (alternatives q)" and row: "row = \<lparr>row_respondent_id = respondent_id s,
       row_question_id = question_id q, alternative = alternative_id a,
       benefit_cells = benefit_cols d (alt_benefits a)\<rparr>"
    by (auto simp: export_to_csv_def)
  with ok have "int (length (alt_benefits a)) \<le> items_per_alternative d"
    by (auto simp: survey_ok_def question_ok_def)
  with sqa row show ?thesis by blast
qed

text \<open>
  C4. For a valid configuration, \<open>generate_survey\<close> followed by \<open>export_to_csv\<close> raises
  nothing and yields \<open>n_respondents * n_questions * n_alternatives\<close> rows, whatever the draws;
  every row has \<open>items_per_alternative\<close> benefit cells, a bundle followed by empty strings.
  The counts only need to be non-negative here, and the labels \<open>chr(65 + alt_id)\<close> must exist,
  which the alphabet of at most 26 letters of the data model ensures.
\<close>

theorem design_row_count:
  assumes "0 \<le> n" and "0 \<le> n_questions d" and "0 \<le> n_alternatives d"
    and "n_alternatives d \<le> 1114047" and "0 \<le> items_per_alternative d"
  shows "generate_survey d n \<noteq> [] \<and>
         (\<forall>out \<in> set (generate_survey d n). \<exists>surveys. out = Inr surveys \<and>
            int (length (export_to_csv d surveys)) = n * n_questions d * n_alternatives d \<and>
            (\<forall>row \<in> set (export_to_csv d surveys).
               int (length (benefit_cells row)) = items_per_alternative d \<and>
               (\<exists>s \<in> set surveys. \<exists>q \<in> set (questions s). \<exists>a \<in> set (alternatives q).
                  row_respondent_id row = respondent_id s \<and>
                  row_question_id row = question_id q \<and>
                  alternative row = alternative_id a \<and>
                  benefit_cells row =
                    map Some (alt_benefits a) @
                    replicate (nat (items_per_alternative d) - length (alt_benefits a))
                      (Some []))))"
proof (intro conjI ballI)
  show "generate_survey d n \<noteq> []"
    unfolding generate_survey_def using assms(5,4) by (rule survey_loop_nonempty)
next
  fix out assume out: "out \<in> set (generate_survey d n)"
  have "\<not> (\<exists>e. out = Inl e)"
    using out survey_loop_no_error [OF assms(5,4)] by (auto simp: generate_survey_def)
  then obtain surveys where s: "out = Inr surveys" by (cases out) auto
  with out have mem: "Inr surveys \<in> set (generate_survey d n)" by simp
  have "int (length (export_to_csv d surveys)) =
          int (nat n) * (int (nat (n_questions d)) * int (nat (n_alternatives d)))"
    unfolding length_export [OF mem] by (simp only: of_nat_mult)
  then have count: "int (length (export_to_csv d surveys)) =
      n * n_questions d * n_alternatives d"
    using assms(1,2,3) by simp
  have cells: "int (length (benefit_cells row)) = items_per_alternative d \<and>
      (\<exists>s \<in> set surveys. \<exists>q \<in> set (questions s). \<exists>a \<in> set (alternatives q).
          row_respondent_id row = respondent_id s \<and>
          row_question_id row = question_id q \<and>
          alternative row = alternative_id a \<and>
          benefit_cells row =
            map Some (alt_benefits a) @
            replicate (nat (items_per_alternative d) - length (alt_benefits a)) (Some []))"
    if "row \<in> set (export_to_csv d surveys)" for row
  proof -
    from export_row_cells [OF mem that] obtain s q a where
      sqa: "s \<in> set surveys" "q \<in> set (questions s)" "a \<in> set (alternatives q)" and
      len: "int (length (alt_benefits a)) \<le> items_per_alternative d" and
      row: "row = \<lparr>row_respondent_id = respondent_id s, row_question_id = question_id q,
                  alternative = alternative_id a,
                  benefit_cells = benefit_cols d (alt_benefits a)\<rparr>"
      by blast
    have "int (length (benefit_cells row)) = items_per_alternative d"
      using assms(5) by (simp add: row length_benefit_cols)
    moreover have "benefit_cells row =
        map Some (alt_benefits a) @
        replicate (nat (items_per_alternative d) - length (alt_benefits a)) (Some [])"
      using benefit_cols_padded [OF len] by (simp add: row)
    moreover have "row_respondent_id row = respondent_id s"
      "row_question_id row = question_id q" "alternative row = alternative_id a"
      by (simp_all add: row)
    ultimately show ?thesis using sqa by blast
  qed
  show "\<exists>surveys. out = Inr surveys \<and>
            int (length (export_to_csv d surveys)) = n * n_questions d * n_alternatives d \<and>
            (\<forall>row \<in> set (export_to_csv d surveys).
               int (length (benefit_cells row)) = items_per_alternative d \<and>
               (\<exists>s \<in> set surveys. \<exists>q \<in> set (questions s). \<exists>a \<in> set (alternatives q).
                  row_respondent_id row = respondent_id s \<and>
                  row_question_id row = question_id q \<and>
                  alternative row = alternative_id a \<and>
                  benefit_cells row =
                    map Some (alt_benefits a) @
                    replicate (nat (items_per_alternative d) - length (alt_benefits a))
                      (Some [])))"
    using s count cells by blast
qed

lemma small_designer_fields:
  "benefits small_designer = [[88], [89]]"
  "n_alternatives small_designer = 2"
  "n_questions small_designer = 1"
  "items_per_alternative small_designer = 1"
  by (simp_all add: small_designer_def init_designer_def)

theorem design_row_count_witness:
  "0 \<le> (2::int) \<and> 0 \<le> n_questions small_designer \<and> 0 \<le> n_alternatives small_designer \<and>
   n_alternatives small_designer \<le> 1114047 \<and> 0 \<le> items_per_alternative small_designer \<and>
   generate_survey small_designer 2 \<noteq> [] \<and>
   (\<exists>surveys. hd (generate_survey small_designer 2) = Inr surveys \<and>
      length (export_to_csv small_designer surveys) = 4 \<and>
      length (benefit_cells (hd (export_to_csv small_designer surveys))) = 1)"
proof -
  have h: "0 \<le> (2::int)" "0 \<le> n_questions small_designer"
    "0 \<le> n_alternatives small_designer" "n_alternatives small_designer \<le> 1114047"
    "0 \<le> items_per_alternative small_designer"
    by (simp_all add: small_designer_fields)
  from design_row_count [OF h]
  have ne: "generate_survey small_designer 2 \<noteq> []"
    and all: "\<forall>out \<in> set (generate_survey small_designer 2). \<exists>surveys. out = Inr surveys \<and>
      int (length (export_to_csv small_designer surveys)) =
        2 * n_questions small_designer * n_alternatives small_designer \<and>
      (\<forall>row \<in> set (export_to_csv small_designer surveys).
         int (length (benefit_cells row)) = items_per_alternative small_designer \<and>
         (\<exists>s \<in> set surveys. \<exists>q \<in> set (questions s). \<exists>a \<in> set (alternatives q).
            row_respondent_id row = respondent_id s \<and>
            row_question_id row = question_id q \<and>
            alternative row = alternative_id a \<and>
            benefit_cells row =
              map Some (alt_benefits a) @
              replicate (nat (items_per_alternative small_designer) - length (alt_benefits a))
                (Some [])))"
    by blast+
  from ne have "hd (generate_survey small_designer 2) \<in> set (generate_survey small_designer 2)"
    by (rule hd_in_set)
  with all obtain surveys where s: "hd (generate_survey small_designer 2) = Inr surveys"
    and c: "int (length (export_to_csv small_designer surveys)) =
        2 * n_questions small_designer * n_alternatives small_designer"
    and r: "\<forall>row \<in> set (export_to_csv small_designer surveys).
         int (length (benefit_cells row)) = items_per_alternative small_designer"
    by blast
  from c have len: "length (export_to_csv small_designer surveys) = 4"
    by (simp add: small_designer_fields)
  then have "export_to_csv small_designer surveys \<noteq> []" by auto
  then have "hd (export_to_csv small_designer surveys) \<in> set (export_to_csv small_designer surveys)"
    by (rule hd_in_set)
  with r have "length (benefit_cells (hd (export_to_csv small_designer surveys))) = 1"
    by (simp add: small_designer_fields)
  with h ne s len show ?thesis by blast
qed


subsection \<open>Configurations the generator does not reject\<close>

lemma question_loop_empty_bundles:
  assumes "items_per_alternative d = 0 \<or> benefits d = [] \<and> 0 \<le> items_per_alternative d"
    and "\<forall>i \<in> set ids. label_ok i"
  shows "question_loop d ids alts used =
           [Inr (alts @ map (\<lambda>i. \<lparr>alternative_id = [nat (65 + i)], alt_benefits = []\<rparr>) ids)]"
  using assms(2)
proof (induction ids arbitrary: alts used)
  case Nil
  then show ?case by simp
next
  case (Cons i rest)
  then show ?case
    by (simp add: bundle_outcomes_empty [OF assms(1)] chr_label_ok)
qed

lemma generate_question_blank:
  assumes "n_alternatives d \<le> 0 \<or>
     (items_per_alternative d = 0 \<or> benefits d = [] \<and> 0 \<le> items_per_alternative d) \<and>
     n_alternatives d \<le> 1114047"
  shows "generate_question d q_id =
           [Inr \<lparr>question_id = q_id,
                 alternatives = map (\<lambda>i. \<lparr>alternative_id = [nat (65 + i)], alt_benefits = []\<rparr>)
                                    [0..n_alternatives d - 1]\<rparr>]"
proof (cases "n_alternatives d \<le> 0")
  case True
  then have "[0..n_alternatives d - 1] = []" by simp
  then show ?thesis by (simp add: generate_question_def)
next
  case False
  with assms have e: "items_per_alternative d = 0 \<or>
      benefits d = [] \<and> 0 \<le> items_per_alternative d" and n: "n_alternatives d \<le> 1114047"
    by auto
  show ?thesis
    unfolding generate_question_def
    by (simp add: question_loop_empty_bundles [OF e labels_ok_upto [OF n]])
qed

lemma questions_loop_single:
  assumes "\<And>q_id. generate_question d q_id = [Inr (mk q_id)]"
  shows "questions_loop d ids qs = [Inr (qs @ map mk ids)]"
  by (induction ids arbitrary: qs) (simp_all add: assms)

lemma survey_loop_single:
  assumes "questions_loop d [1..n_questions d] [] = [Inr qs]"
  shows "survey_loop d ids ss =
           [Inr (ss @ map (\<lambda>r. \<lparr>respondent_id = r, questions = qs\<rparr>) ids)]"
  by (induction ids arbitrary: ss) (simp_all add: assms)

lemma generate_question_raises:
  assumes "items_per_alternative d < 0" and "0 < n_alternatives d"
  shows "generate_question d q_id = [Inl ValueError]"
proof -
  have "[0..n_alternatives d - 1] = 0 # [1..n_alternatives d - 1]"
    using assms(2) upto_rec1 [of 0 "n_alternatives d - 1"] by simp
  then show ?thesis
    by (simp add: generate_question_def bundle_outcomes_negative [OF assms(1)])
qed

lemma generate_survey_raises:
  assumes "items_per_alternative d < 0" and "0 < n_alternatives d"
    and "0 < n_questions d" and "0 < n"
  shows "generate_survey d n = [Inl ValueError]"
proof -
  have q: "[1..n_questions d] = 1 # [2..n_questions d]"
    using assms(3) upto_rec1 [of 1 "n_questions d"] by simp
  have r: "[1..n] = 1 # [2..n]"
    using assms(4) upto_rec1 [of 1 n] by simp
  have "questions_loop d [1..n_questions d] [] = [Inl ValueError]"
    by (simp add: q generate_question_raises [OF assms(1,2)])
  then show ?thesis by (simp add: generate_survey_def r)
qed

lemma generate_survey_blank:
  assumes "n \<le> 0 \<or> n_questions d \<le> 0 \<or> n_alternatives d \<le> 0 \<or>
     (items_per_alternative d = 0 \<or> benefits d = [] \<and> 0 \<le> items_per_alternative d) \<and>
     n_alternatives d \<le> 1114047"
  shows "generate_survey d n =
     [Inr (map (\<lambda>r. \<lparr>respondent_id = r,
                      questions = map (\<lambda>q. \<lparr>question_id = q,
                          alternatives = map (\<lambda>i. \<lparr>alternative_id = [nat (65 + i)],
                                                    alt_benefits = []\<rparr>)
                                             [0..n_alternatives d - 1]\<rparr>)
                        [1..n_questions d]\<rparr>)
               [1..n])]"
proof -
  consider (resp) "n \<le> 0" | (qs) "n_questions d \<le> 0"
    | (blank) "n_alternatives d \<le> 0 \<or>
        (items_per_alternative d = 0 \<or> benefits d = [] \<and> 0 \<le> items_per_alternative d) \<and>
        n_alternatives d \<le> 1114047"
    using assms by blast
  then show ?thesis
  proof cases
    case resp
    then have "[1..n] = []" by simp
    then show ?thesis by (simp add: generate_survey_def)
  next
    case qs
    then have e: "[1..n_questions d] = []" by simp
    then have "questions_loop d [1..n_questions d] [] = [Inr []]" by simp
    from survey_loop_single [OF this] show ?thesis by (simp add: generate_survey_def e)
  next
    case blank
    have "questions_loop d [1..n_questions d] [] =
        [Inr ([] @ map (\<lambda>q. \<lparr>question_id = q,
            alternatives = map (\<lambda>i. \<lparr>alternative_id = [nat (65 + i)], alt_benefits = []\<rparr>)
                               [0..n_alternatives d - 1]\<rparr>) [1..n_questions d])]"
      by (rule questions_loop_single) (rule generate_question_blank [OF blank])
    then have "questions_loop d [1..n_questions d] [] =
        [Inr (map (\<lambda>q. \<lparr>question_id = q,
            alternatives = map (\<lambda>i. \<lparr>alternative_id = [nat (65 + i)], alt_benefits = []\<rparr>)
                               [0..n_alternatives d - 1]\<rparr>) [1..n_questions d])]"
      by simp
    from survey_loop_single [OF this] show ?thesis by (simp add: generate_survey_def)
  qed
qed

text \<open>
  C1, as the code has it. The generator checks nothing. With a non-positive respondent,
  question or alternative count, with zero benefits per alternative, or with an empty
  catalog (benefits per alternative not negative, labels existing), \<open>generate_survey\<close>
  raises nothing: it returns the surveys of the requested shape, every bundle empty, and no
  survey, question or alternative at all where the respective count is not positive. Only
  a negative \<open>items_per_alternative\<close> fails, with the \<open>ValueError\<close> of \<open>random.sample\<close> at
  the first bundle drawn, so only when all three counts are positive.
\<close>

theorem no_config_validation:
  "(n \<le> 0 \<or> n_questions d \<le> 0 \<or> n_alternatives d \<le> 0 \<or>
      (items_per_alternative d = 0 \<or> benefits d = [] \<and> 0 \<le> items_per_alternative d) \<and>
      n_alternatives d \<le> 1114047 \<longrightarrow>
    generate_survey d n =
     [Inr (map (\<lambda>r. \<lparr>respondent_id = r,
                      questions = map (\<lambda>q. \<lparr>question_id = q,
                          alternatives = map (\<lambda>i. \<lparr>alternative_id = [nat (65 + i)],
                                                    alt_benefits = []\<rparr>)
                                             [0..n_alternatives d - 1]\<rparr>)
                        [1..n_questions d]\<rparr>)
               [1..n])]) \<and>
   (items_per_alternative d < 0 \<and> 0 < n_alternatives d \<and> 0 < n_questions d \<and> 0 < n \<longrightarrow>
    generate_survey d n = [Inl ValueError])"
  using generate_survey_blank [of n d] generate_survey_raises [of d n] by blast

theorem no_config_validation_witness:
  "benefits (init_designer [] 2 1 1) = [] \<and>
   generate_survey (init_designer [] 2 1 1) 1 =
     [Inr [\<lparr>respondent_id = 1,
            questions = [\<lparr>question_id = 1,
                          alternatives = [\<lparr>alternative_id = [65], alt_benefits = []\<rparr>,
                                          \<lparr>alternative_id = [66], alt_benefits = []\<rparr>]\<rparr>]\<rparr>]] \<and>
   items_per_alternative (init_designer [[88]] 2 1 (- 1)) < 0 \<and>
   generate_survey (init_designer [[88]] 2 1 (- 1)) 1 = [Inl ValueError]"
proof -
  have f: "benefits (init_designer [] 2 1 1) = []"
    "items_per_alternative (init_designer [] 2 1 1) = 1"
    "n_alternatives (init_designer [] 2 1 1) = 2"
    "n_questions (init_designer [] 2 1 1) = 1"
    by (simp_all add: init_designer_def)
  have g: "items_per_alternative (init_designer [[88]] 2 1 (- 1)) < 0"
    "0 < n_alternatives (init_designer [[88]] 2 1 (- 1))"
    "0 < n_questions (init_designer [[88]] 2 1 (- 1))"
    by (simp_all add: init_designer_def)
  have u: "[0..1] = [0, 1::int]" "[1..1] = [1::int]"
    by (simp_all add: upto_rec1)
  from no_config_validation [of 1 "init_designer [] 2 1 1"]
  have 1: "generate_survey (init_designer [] 2 1 1) 1 =
     [Inr [\<lparr>respondent_id = 1,
            questions = [\<lparr>question_id = 1,
                          alternatives = [\<lparr>alternative_id = [65], alt_benefits = []\<rparr>,
                                          \<lparr>alternative_id = [66], alt_benefits = []\<rparr>]\<rparr>]\<rparr>]]"
    by (simp add: f u)
  from no_config_validation [of 1 "init_designer [[88]] 2 1 (- 1)"]
  have 2: "generate_survey (init_designer [[88]] 2 1 (- 1)) 1 = [Inl ValueError]"
    using g by simp
  from f(1) 1 g(1) 2 show ?thesis by (intro conjI)
qed

text \<open>
  The claim as it is written fails on an empty catalog with otherwise valid counts: the
  call returns a survey whose bundles are empty, and raises nothing.
\<close>

theorem empty_catalog_accepted:
  "generate_survey (init_designer [] 2 1 1) 1 =
     [Inr [\<lparr>respondent_id = 1,
            questions = [\<lparr>question_id = 1,
                          alternatives = [\<lparr>alternative_id = [65], alt_benefits = []\<rparr>,
                                          \<lparr>alternative_id = [66], alt_benefits = []\<rparr>]\<rparr>]\<rparr>]]"
proof -
  have u: "[0..1] = [0, 1::int]" "[1..1] = [1::int]"
    by (simp_all add: upto_rec1)
  show ?thesis
    by (simp add: generate_survey_def generate_question_def generate_random_bundle_def
        available_benefits_def random_sample_def init_designer_def chr_def u)
qed


subsection \<open>Disjoint bundles within a question\<close>

lemma bundle_avoids_used:
  assumes "Inr bs \<in> set (generate_random_bundle d used)" and "\<not> fallback_triggered d used"
  shows "set bs \<inter> used = {}"
  using bundle_subset [OF assms(1)] assms(2) by (auto simp: available_benefits_cases)

lemma question_loop_disjoint:
  assumes "Inr alts' \<in> set (question_loop d ids alts used)"
  shows "\<exists>new. alts' = alts @ new \<and>
           (no_fallback d used new \<longrightarrow>
              (\<forall>a \<in> set new. set (alt_benefits a) \<inter> used = {}) \<and>
              sorted_wrt (\<lambda>a b. set (alt_benefits a) \<inter> set (alt_benefits b) = {}) new)"
  using assms
proof (induction ids arbitrary: alts used)
  case Nil
  then show ?case by simp
next
  case (Cons i rest)
  from Cons.prems obtain bs c where
    b: "Inr bs \<in> set (generate_random_bundle d used)" and
    r: "Inr alts' \<in> set (question_loop d rest
          (alts @ [\<lparr>alternative_id = c, alt_benefits = bs\<rparr>]) (used \<union> set bs))"
    unfolding question_loop_Inr_Cons by blast
  let ?a = "\<lparr>alternative_id = c, alt_benefits = bs\<rparr>"
  let ?D = "\<lambda>a b. set (alt_benefits a) \<inter> set (alt_benefits b) = {}"
  from Cons.IH [OF r] obtain new where
    eq: "alts' = (alts @ [?a]) @ new" and
    inv: "no_fallback d (used \<union> set bs) new \<longrightarrow>
            (\<forall>a \<in> set new. set (alt_benefits a) \<inter> (used \<union> set bs) = {}) \<and>
            sorted_wrt ?D new"
    by blast
  have "(\<forall>a \<in> set (?a # new). set (alt_benefits a) \<inter> used = {}) \<and> sorted_wrt ?D (?a # new)"
    if nf: "no_fallback d used (?a # new)"
  proof -
    from nf have n1: "\<not> fallback_triggered d used" and
      n2: "no_fallback d (used \<union> set bs) new" by simp_all
    from bundle_avoids_used [OF b n1] have bu: "set bs \<inter> used = {}" .
    from inv n2 have
      i1: "\<forall>a \<in> set new. set (alt_benefits a) \<inter> (used \<union> set bs) = {}" and
      i2: "sorted_wrt ?D new" by simp_all
    from i1 have "\<forall>a \<in> set new. set (alt_benefits a) \<inter> used = {}" by blast
    moreover from i1 have "\<forall>a \<in> set new. set bs \<inter> set (alt_benefits a) = {}" by blast
    ultimately show ?thesis using bu i2 by simp
  qed
  then have "alts' = alts @ (?a # new) \<and>
      (no_fallback d used (?a # new) \<longrightarrow>
         (\<forall>a \<in> set (?a # new). set (alt_benefits a) \<inter> used = {}) \<and> sorted_wrt ?D (?a # new))"
    using eq by simp
  then show ?case by (rule exI)
qed

text \<open>
  C5. In every question the generator can return, if the fallback was not taken at any
  alternative of that question, the bundles of two different alternatives share no benefit.
\<close>

theorem alternatives_disjoint:
  assumes "Inr q \<in> set (generate_question d q_id)"
    and "no_fallback d {} (alternatives q)"
    and "i < j" and "j < length (alternatives q)"
  shows "set (alt_benefits (alternatives q ! i)) \<inter> set (alt_benefits (alternatives q ! j)) = {}"
proof -
  from assms(1) have "Inr (alternatives q) \<in> set (question_loop d [0..n_alternatives d - 1] [] {})"
    by (simp add: generate_question_Inr)
  from question_loop_disjoint [OF this] assms(2)
  have "sorted_wrt (\<lambda>a b. set (alt_benefits a) \<inter> set (alt_benefits b) = {}) (alternatives q)"
    by auto
  then show ?thesis using assms(3,4) by (simp add: sorted_wrt_iff_nth_less)
qed

theorem alternatives_disjoint_witness:
  "Inr example_question \<in> set (generate_question small_designer 1) \<and>
   no_fallback small_designer {} (alternatives example_question) \<and>
   (0::nat) < 1 \<and> 1 < length (alternatives example_question) \<and>
   set (alt_benefits (alternatives example_question ! 0)) \<inter>
   set (alt_benefits (alternatives example_question ! 1)) = {}"
proof -
  have u: "[0..1] = [0, 1::int]" by (simp add: upto_rec1)
  have h1: "Inr example_question \<in> set (generate_question small_designer 1)"
    by (simp add: example_question_def generate_question_def generate_random_bundle_def
        available_benefits_def random_sample_def small_designer_fields chr_def u)
  have h2: "no_fallback small_designer {} (alternatives example_question)"
    by (simp add: example_question_def fallback_triggered_def small_designer_fields)
  have h3: "(0::nat) < 1" by simp
  have h4: "1 < length (alternatives example_question)"
    by (simp add: example_question_def)
  from h1 h2 h3 h4 alternatives_disjoint [OF h1 h2 h3 h4] show ?thesis by (intro conjI)
qed


text \<open>
  The hypothesis of C5 holds whenever the catalog holds distinct names and is as large as
  the number of slots of a question: then the fallback is never taken.
\<close>

lemma filter_length_ge:
  assumes "distinct xs" and "finite A"
  shows "length xs \<le> length (filter (\<lambda>x. x \<notin> A) xs) + card A"
proof -
  have "{x. x \<notin> A} \<inter> set xs = set xs - A" by auto
  then have "length (filter (\<lambda>x. x \<notin> A) xs) = card (set xs - A)"
    using assms(1) by (simp add: distinct_length_filter)
  moreover have "card (set xs) \<le> card ((set xs - A) \<union> A)"
    using assms(2) by (intro card_mono) auto
  moreover have "card ((set xs - A) \<union> A) \<le> card (set xs - A) + card A"
    by (rule card_Un_le)
  moreover have "card (set xs) = length xs" using assms(1) by (rule distinct_card)
  ultimately show ?thesis by linarith
qed

lemma question_loop_large_catalog:
  assumes "distinct (benefits d)" and "0 \<le> items_per_alternative d"
    and "Inr alts' \<in> set (question_loop d ids alts used)" and "finite used"
    and "int (card used) + int (length ids) * items_per_alternative d
           \<le> int (length (benefits d))"
  shows "\<exists>new. alts' = alts @ new \<and> no_fallback d used new"
  using assms(3,4,5)
proof (induction ids arbitrary: alts used)
  case Nil
  then show ?case by simp
next
  case (Cons i rest)
  from Cons.prems(1) obtain bs c where
    b: "Inr bs \<in> set (generate_random_bundle d used)" and
    r: "Inr alts' \<in> set (question_loop d rest
          (alts @ [\<lparr>alternative_id = c, alt_benefits = bs\<rparr>]) (used \<union> set bs))"
    unfolding question_loop_Inr_Cons by blast
  let ?a = "\<lparr>alternative_id = c, alt_benefits = bs\<rparr>"
  let ?k = "items_per_alternative d"
  have rest_nonneg: "0 \<le> int (length rest) * ?k" using assms(2) by simp
  have budget: "int (card used) + ?k + int (length rest) * ?k \<le> int (length (benefits d))"
    using Cons.prems(3) by (simp add: algebra_simps)
  have "int (length (benefits d))
      \<le> int (length (filter (\<lambda>x. x \<notin> used) (benefits d))) + int (card used)"
    using filter_length_ge [OF assms(1) Cons.prems(2)] by linarith
  with budget rest_nonneg have nf: "\<not> fallback_triggered d used"
    by (simp add: fallback_triggered_def)
  have "card (used \<union> set bs) \<le> card used + card (set bs)" by (rule card_Un_le)
  moreover have "card (set bs) \<le> length bs" by (rule card_length)
  moreover have "int (length bs) \<le> ?k" using b by (rule bundle_length_le)
  ultimately have "int (card (used \<union> set bs)) \<le> int (card used) + ?k" by linarith
  with budget have
    "int (card (used \<union> set bs)) + int (length rest) * ?k \<le> int (length (benefits d))"
    by linarith
  moreover have "finite (used \<union> set bs)" using Cons.prems(2) by simp
  ultimately obtain new where
    eq: "alts' = (alts @ [?a]) @ new" and n: "no_fallback d (used \<union> set bs) new"
    using Cons.IH [OF r] by blast
  have "alts' = alts @ (?a # new) \<and> no_fallback d used (?a # new)"
    using eq n nf by simp
  then show ?case by (rule exI)
qed

lemma large_catalog_no_fallback:
  assumes "distinct (benefits d)" and "0 \<le> items_per_alternative d"
    and "0 \<le> n_alternatives d"
    and "n_alternatives d * items_per_alternative d \<le> int (length (benefits d))"
    and "Inr q \<in> set (generate_question d q_id)"
  shows "no_fallback d {} (alternatives q)"
proof -
  from assms(5) have m: "Inr (alternatives q) \<in> set (question_loop d [0..n_alternatives d - 1] [] {})"
    by (simp add: generate_question_Inr)
  have "int (length [0..n_alternatives d - 1]) = n_alternatives d"
    using assms(3) by simp
  then have "int (card ({}::pystr set)) + int (length [0..n_alternatives d - 1]) *
      items_per_alternative d \<le> int (length (benefits d))"
    using assms(4) by simp
  from question_loop_large_catalog [OF assms(1,2) m _ this] show ?thesis by auto
qed


subsection \<open>Merging and scoring\<close>

lemma left_merge_Nil [simp]: "left_merge [] responses = []"
  by (simp add: left_merge_def)

lemma left_merge_append:
  "left_merge (xs @ ys) responses = left_merge xs responses @ left_merge ys responses"
  by (simp add: left_merge_def)

lemma left_merge_unmatched:
  "matching_responses dr responses = [] \<Longrightarrow>
   left_merge (dr # rest) responses = flag_chosen dr None # left_merge rest responses"
  by (simp add: left_merge_def)

lemma chosen_flag: "chosen (flag_chosen dr c) = 0 \<or> chosen (flag_chosen dr c) = 1"
  by (simp add: flag_chosen_def)

lemma left_merge_row:
  assumes "m \<in> set (left_merge design responses)"
  shows "\<exists>dr \<in> set design. \<exists>c. m = flag_chosen dr c"
proof -
  from assms obtain dr where dr: "dr \<in> set design" and
    m: "m \<in> set (case matching_responses dr responses of
                    [] \<Rightarrow> [flag_chosen dr None]
                  | rs \<Rightarrow> map (\<lambda>r. flag_chosen dr (resp_chosen_alternative r)) rs)"
    by (auto simp: left_merge_def)
  from m have "\<exists>c. m = flag_chosen dr c"
    by (cases "matching_responses dr responses") auto
  with dr show ?thesis by blast
qed

lemma left_merge_chosen:
  "m \<in> set (left_merge design responses) \<Longrightarrow> chosen m = 0 \<or> chosen m = 1"
  using left_merge_row [of m design responses] chosen_flag by auto

lemma data_long_append: "data_long (xs @ ys) = data_long xs @ data_long ys"
  by (simp add: data_long_def)

lemma data_long_Cons: "data_long (x # xs) = row_observations x @ data_long xs"
  by (simp add: data_long_def)

lemma row_observations_chosen:
  "ob \<in> set (row_observations row) \<Longrightarrow> obs_chosen ob = chosen row"
  by (auto simp: row_observations_def split: option.splits if_splits)

lemma row_observations_benefits:
  "obs_benefit ` set (row_observations row) = {b. Some b \<in> set (benefit_cells row) \<and> b \<noteq> []}"
  by (auto simp: row_observations_def image_iff split: option.splits if_splits)
     (metis (no_types, lifting) observation.select_convs(1) singletonI)

lemma data_long_chosen:
  assumes "\<forall>m \<in> set merged. chosen m = 0 \<or> chosen m = 1" and "ob \<in> set (data_long merged)"
  shows "obs_chosen ob = 0 \<or> obs_chosen ob = 1"
  using assms by (auto simp: data_long_def dest!: row_observations_chosen)

lemma scores_returned:
  assumes "merged_df a = Some merged" and "data_long merged \<noteq> []"
  shows "calculate_preference_scores a =
           Inr (scorecard_of merged, a\<lparr>results_df := Some (scorecard_of merged)\<rparr>)"
  using assms by (simp add: calculate_preference_scores_def scorecard_of_def Let_def)

lemma scores_Inr_iff:
  "calculate_preference_scores a = Inr (sc, a') \<longleftrightarrow>
     (\<exists>merged. merged_df a = Some merged \<and> data_long merged \<noteq> [] \<and>
        sc = scorecard_of merged \<and> a' = a\<lparr>results_df := Some sc\<rparr>)"
  by (auto simp: calculate_preference_scores_def scorecard_of_def Let_def split: option.splits)

lemma set_score_entries:
  "set (score_entries stats) =
     (\<lambda>(b, s, n, rate). \<lparr>benefit = b, times_chosen = s, times_shown = n, choice_rate = rate,
          utility_score = utility (map (\<lambda>(b, s, n, rate). rate) stats) rate,
          preference_pct = rate * 100\<rparr>) ` set stats"
  by (simp add: score_entries_def Let_def)

lemma scorecard_entry_iff:
  "e \<in> set (scorecard_of merged) \<longleftrightarrow>
     (\<exists>b \<in> obs_benefit ` set (data_long merged).
        e = (case group_stats (data_long merged) b of (s, n, rate) \<Rightarrow>
               \<lparr>benefit = b, times_chosen = s, times_shown = n, choice_rate = rate,
                utility_score = utility (map (\<lambda>(b, s, n, rate). rate)
                                   (benefit_stats (data_long merged))) rate,
                preference_pct = rate * 100\<rparr>))"
  by (auto simp: scorecard_of_def set_score_entries benefit_stats_def image_iff split: prod.splits)

lemma scorecard_counts:
  assumes "e \<in> set (scorecard_of merged)"
  shows "benefit e \<in> obs_benefit ` set (data_long merged) \<and>
         times_shown e =
           int (length (filter (\<lambda>ob. obs_benefit ob = benefit e) (data_long merged))) \<and>
         times_chosen e =
           sum_list (map obs_chosen
             (filter (\<lambda>ob. obs_benefit ob = benefit e) (data_long merged)))"
  using assms unfolding scorecard_entry_iff
  by (auto simp: group_stats_def Let_def)

lemma scorecard_has_entry:
  assumes "b \<in> obs_benefit ` set (data_long merged)"
  shows "\<exists>e \<in> set (scorecard_of merged). benefit e = b"
proof -
  obtain s n rate where g: "group_stats (data_long merged) b = (s, n, rate)"
    by (cases "group_stats (data_long merged) b") auto
  let ?e = "\<lparr>benefit = b, times_chosen = s, times_shown = n, choice_rate = rate,
            utility_score = utility (map (\<lambda>(b, s, n, rate). rate)
                               (benefit_stats (data_long merged))) rate,
            preference_pct = rate * 100\<rparr>"
  have "?e \<in> set (scorecard_of merged)"
    unfolding scorecard_entry_iff using assms g by (intro bexI [of _ b]) simp_all
  then show ?thesis by (intro bexI [of _ ?e]) simp_all
qed

lemma single_merged_value:
  "single_merged =
     \<lparr>design_df = single_design, response_df = chose_A,
      merged_df = Some [\<lparr>row_respondent_id = 1, row_question_id = 1, alternative = [65],
                         benefit_cells = [Some [88]], chosen_alternative = Some [65],
                         chosen = 1\<rparr>],
      results_df = None\<rparr>"
  by (simp add: single_merged_def merge_data_def init_analyzer_def left_merge_def
      matching_responses_def flag_chosen_def single_design_def chose_A_def Let_def)

lemma merge_data_value:
  "merge_data a = (left_merge (design_df a) (response_df a),
                   a\<lparr>merged_df := Some (left_merge (design_df a) (response_df a))\<rparr>)"
  by (simp add: merge_data_def Let_def)


subsection \<open>Scoring needs the merge\<close>

text \<open>
  C10. On a freshly constructed analyzer \<open>merged_df\<close> is \<open>None\<close>, so
  \<open>calculate_preference_scores\<close> fails with \<open>AttributeError\<close> whatever the design and the
  responses are; once \<open>merge_data\<close> has run it never fails that way.
\<close>

theorem scoring_before_merge_fails:
  "calculate_preference_scores (init_analyzer design response) = Inl AttributeError \<and>
   calculate_preference_scores (snd (merge_data a)) \<noteq> Inl AttributeError"
  by (simp add: calculate_preference_scores_def init_analyzer_def merge_data_def Let_def)


subsection \<open>Degenerate statistics\<close>

lemma single_benefit_stats:
  assumes "obs \<noteq> []" and "\<forall>ob \<in> set obs. obs_benefit ob = b"
  shows "length (benefit_stats obs) = 1"
proof -
  from assms have "set (map obs_benefit obs) = {b}"
    by (cases obs) auto
  then have "length (remdups (map obs_benefit obs)) = 1"
    by (simp add: length_remdups_card_conv)
  then show ?thesis by (simp add: benefit_stats_def)
qed

lemma single_rate_utility: "length rates < 2 \<Longrightarrow> utility rates rate = NaN"
  by (simp add: utility_def series_std_def)

lemma scorecard_utility:
  assumes "e \<in> set (scorecard_of merged)"
  shows "\<exists>rate. utility_score e =
           utility (map (\<lambda>(b, s, n, rate). rate) (benefit_stats (data_long merged))) rate"
proof -
  from assms obtain b where
    e: "e = (case group_stats (data_long merged) b of (s, n, rate) \<Rightarrow>
               \<lparr>benefit = b, times_chosen = s, times_shown = n, choice_rate = rate,
                utility_score = utility (map (\<lambda>(b, s, n, rate). rate)
                                   (benefit_stats (data_long merged))) rate,
                preference_pct = rate * 100\<rparr>)"
    unfolding scorecard_entry_iff by blast
  obtain s n rate where g: "group_stats (data_long merged) b = (s, n, rate)"
    by (cases "group_stats (data_long merged) b") auto
  have "utility_score e =
      utility (map (\<lambda>(b, s, n, rate). rate) (benefit_stats (data_long merged))) rate"
    using e g by simp
  then show ?thesis by (rule exI)
qed

lemma scorecard_nonempty:
  assumes "data_long merged \<noteq> []"
  shows "scorecard_of merged \<noteq> []"
proof -
  from assms obtain ob where "ob \<in> set (data_long merged)"
    by (cases "data_long merged") auto
  then have "obs_benefit ob \<in> obs_benefit ` set (data_long merged)" by simp
  from scorecard_has_entry [OF this] show ?thesis by auto
qed

text \<open>
  C2, as the code has it. Scoring has no guard and no sentinel. On every merged dataset with
  at least one observation it raises nothing, whatever the choice rates are. When a single
  benefit is observed, the deviation of its one choice rate is undefined and the
  \<open>utility_score\<close> returned is \<open>NaN\<close>, not a number put in its place.
\<close>

theorem utility_without_sentinel:
  assumes "data_long (left_merge (design_df a) (response_df a)) \<noteq> []"
  shows "\<exists>sc a'. calculate_preference_scores (snd (merge_data a)) = Inr (sc, a') \<and> sc \<noteq> [] \<and>
           ((\<forall>ob \<in> set (data_long (left_merge (design_df a) (response_df a))).
                obs_benefit ob = b) \<longrightarrow>
            (\<forall>e \<in> set sc. benefit e = b \<and> utility_score e = NaN))"
proof -
  let ?merged = "left_merge (design_df a) (response_df a)"
  let ?sc = "scorecard_of ?merged"
  have m: "merged_df (snd (merge_data a)) = Some ?merged"
    by (simp add: merge_data_value)
  from scores_returned [OF m assms]
  have ret: "calculate_preference_scores (snd (merge_data a)) =
      Inr (?sc, (snd (merge_data a))\<lparr>results_df := Some ?sc\<rparr>)" .
  have ne: "?sc \<noteq> []" using assms by (rule scorecard_nonempty)
  have single: "\<forall>e \<in> set ?sc. benefit e = b \<and> utility_score e = NaN"
    if all: "\<forall>ob \<in> set (data_long ?merged). obs_benefit ob = b"
  proof
    fix e assume e: "e \<in> set ?sc"
    from scorecard_counts [OF e] all have "benefit e = b" by auto
    moreover have "length (map (\<lambda>(b, s, n, rate). rate) (benefit_stats (data_long ?merged))) < 2"
      using single_benefit_stats [OF assms all] by simp
    then have "utility_score e = NaN"
      using scorecard_utility [OF e] single_rate_utility by auto
    ultimately show "benefit e = b \<and> utility_score e = NaN" by simp
  qed
  from ret ne single show ?thesis by blast
qed

theorem utility_without_sentinel_witness:
  "data_long (left_merge (design_df (init_analyzer single_design chose_A))
                         (response_df (init_analyzer single_design chose_A))) =
     [\<lparr>obs_benefit = [88], obs_chosen = 1, obs_respondent_id = 1, obs_question_id = 1\<rparr>] \<and>
   (\<exists>sc a'. calculate_preference_scores (snd (merge_data (init_analyzer single_design chose_A))) =
      Inr (sc, a') \<and> sc \<noteq> [] \<and> benefit (hd sc) = [88] \<and> utility_score (hd sc) = NaN)"
proof -
  let ?a = "init_analyzer single_design chose_A"
  have obs: "data_long (left_merge (design_df ?a) (response_df ?a)) =
      [\<lparr>obs_benefit = [88], obs_chosen = 1, obs_respondent_id = 1, obs_question_id = 1\<rparr>]"
    by (simp add: init_analyzer_def single_design_def chose_A_def left_merge_def
        matching_responses_def flag_chosen_def data_long_def row_observations_def)
  then have h: "data_long (left_merge (design_df ?a) (response_df ?a)) \<noteq> []" by simp
  have one: "\<forall>ob \<in> set (data_long (left_merge (design_df ?a) (response_df ?a))).
      obs_benefit ob = [88]"
    by (simp add: obs)
  from utility_without_sentinel [OF h, of "[88]"] one
  obtain sc a' where ret: "calculate_preference_scores (snd (merge_data ?a)) = Inr (sc, a')"
    and ne: "sc \<noteq> []"
    and all: "\<forall>e \<in> set sc. benefit e = [88] \<and> utility_score e = NaN"
    by blast
  from ne have "hd sc \<in> set sc" by (rule hd_in_set)
  with all have "benefit (hd sc) = [88] \<and> utility_score (hd sc) = NaN" by blast
  with ret ne have "\<exists>sc a'. calculate_preference_scores (snd (merge_data ?a)) = Inr (sc, a') \<and>
      sc \<noteq> [] \<and> benefit (hd sc) = [88] \<and> utility_score (hd sc) = NaN"
    by blast
  with obs show ?thesis by (intro conjI)
qed

text \<open>
  The claim as it is written asks for a defined sentinel such as 0. With a single benefit,
  always shown and always chosen, the utility score returned is \<open>NaN\<close>.
\<close>

theorem single_benefit_utility_nan:
  "calculate_preference_scores single_merged =
     Inr ([\<lparr>benefit = [88], times_chosen = 1, times_shown = 1, choice_rate = 1,
            utility_score = NaN, preference_pct = 100\<rparr>],
          single_merged\<lparr>results_df :=
            Some [\<lparr>benefit = [88], times_chosen = 1, times_shown = 1, choice_rate = 1,
                   utility_score = NaN, preference_pct = 100\<rparr>]\<rparr>)"
  by (simp add: single_merged_def merge_data_def init_analyzer_def left_merge_def
      matching_responses_def flag_chosen_def single_design_def chose_A_def
      calculate_preference_scores_def data_long_def
      row_observations_def benefit_stats_def group_stats_def score_entries_def utility_def
      series_mean_def series_std_def Let_def)


subsection \<open>Design rows without a response\<close>

lemma cell_observations_count:
  assumes "b \<noteq> []"
  shows "length (filter (\<lambda>ob. obs_benefit ob = b)
           (concat (map (\<lambda>c. case c of
                None \<Rightarrow> []
              | Some b' \<Rightarrow> if b' \<noteq> [] then
                            [\<lparr>obs_benefit = b', obs_chosen = ch,
                              obs_respondent_id = r, obs_question_id = q\<rparr>]
                          else []) cs))) = count_list cs (Some b)"
  using assms by (induction cs) (auto split: option.splits)

lemma row_observations_count:
  "b \<noteq> [] \<Longrightarrow>
   length (filter (\<lambda>ob. obs_benefit ob = b) (row_observations row)) =
     count_list (benefit_cells row) (Some b)"
  unfolding row_observations_def by (rule cell_observations_count)

lemma sum_list_all_zero: "\<forall>x \<in> set xs. f x = (0::int) \<Longrightarrow> sum_list (map f xs) = 0"
  by (induction xs) auto

lemma row_observations_not_chosen:
  assumes "chosen row = 0"
  shows "sum_list (map obs_chosen (filter P (row_observations row))) = 0"
  using assms by (intro sum_list_all_zero) (auto dest: row_observations_chosen)

lemma flag_chosen_fields:
  "benefit_cells (flag_chosen dr c) = benefit_cells dr"
  "row_respondent_id (flag_chosen dr c) = row_respondent_id dr"
  "row_question_id (flag_chosen dr c) = row_question_id dr"
  "alternative (flag_chosen dr c) = alternative dr"
  "chosen_alternative (flag_chosen dr c) = c"
  "chosen (flag_chosen dr None) = 0"
  "chosen (flag_chosen dr (Some l)) = (if l = alternative dr then 1 else 0)"
  by (simp_all add: flag_chosen_def)

text \<open>
  C6. A design row whose \<open>(respondent_id, question_id)\<close> has no response row stays in the
  merged frame, once, with a missing \<open>chosen_alternative\<close> and \<open>chosen = 0\<close>. Each non-empty
  benefit of the row has an entry in the scorecard; compared with the same data without that
  row, its \<open>times_shown\<close> is larger by the number of cells of the row that hold the benefit,
  and its \<open>times_chosen\<close> is the same.
\<close>

theorem unmatched_row_counts_as_shown:
  assumes "design_df a = before @ dr # after"
    and "matching_responses dr (response_df a) = []"
    and "Some b \<in> set (benefit_cells dr)" and "b \<noteq> []"
  shows "fst (merge_data a) =
           left_merge before (response_df a) @
           flag_chosen dr None # left_merge after (response_df a) \<and>
         chosen (flag_chosen dr None) = 0 \<and>
         (\<exists>sc a'. calculate_preference_scores (snd (merge_data a)) = Inr (sc, a') \<and>
            (\<exists>e \<in> set sc. benefit e = b) \<and>
            (\<forall>e \<in> set sc. benefit e = b \<longrightarrow>
               times_shown e =
                 int (length (filter (\<lambda>ob. obs_benefit ob = b)
                        (data_long (left_merge (before @ after) (response_df a))))) +
                 int (count_list (benefit_cells dr) (Some b)) \<and>
               times_chosen e =
                 sum_list (map obs_chosen (filter (\<lambda>ob. obs_benefit ob = b)
                        (data_long (left_merge (before @ after) (response_df a)))))))"
proof -
  let ?rs = "response_df a"
  let ?f = "flag_chosen dr None"
  let ?merged = "left_merge before ?rs @ ?f # left_merge after ?rs"
  let ?P = "\<lambda>ob. obs_benefit ob = b"
  have merged: "left_merge (design_df a) ?rs = ?merged"
    by (simp add: assms(1) left_merge_append left_merge_unmatched [OF assms(2)])
  then have 1: "fst (merge_data a) = ?merged" by (simp add: merge_data_value)
  have 2: "chosen ?f = 0" by (simp add: flag_chosen_fields)
  have long: "data_long ?merged =
      data_long (left_merge before ?rs) @ row_observations ?f @ data_long (left_merge after ?rs)"
    by (simp add: data_long_append data_long_Cons)
  have else_long: "data_long (left_merge (before @ after) ?rs) =
      data_long (left_merge before ?rs) @ data_long (left_merge after ?rs)"
    by (simp add: left_merge_append data_long_append)
  have "b \<in> obs_benefit ` set (row_observations ?f)"
    using assms(3,4) by (simp add: row_observations_benefits flag_chosen_fields)
  then have present: "b \<in> obs_benefit ` set (data_long ?merged)"
    unfolding long by auto
  then have ne: "data_long ?merged \<noteq> []" by auto
  have m: "merged_df (snd (merge_data a)) = Some ?merged"
    by (simp add: merge_data_value merged)
  let ?sc = "scorecard_of ?merged"
  from scores_returned [OF m ne]
  have ret: "calculate_preference_scores (snd (merge_data a)) =
      Inr (?sc, (snd (merge_data a))\<lparr>results_df := Some ?sc\<rparr>)" .
  have ex: "\<exists>e \<in> set ?sc. benefit e = b" using present by (rule scorecard_has_entry)
  have shown: "int (length (filter ?P (data_long ?merged))) =
      int (length (filter ?P (data_long (left_merge (before @ after) ?rs)))) +
      int (count_list (benefit_cells dr) (Some b))"
    unfolding long else_long
    using row_observations_count [OF assms(4), of ?f] by (simp add: flag_chosen_fields)
  have chosen: "sum_list (map obs_chosen (filter ?P (data_long ?merged))) =
      sum_list (map obs_chosen (filter ?P (data_long (left_merge (before @ after) ?rs))))"
    unfolding long else_long
    using row_observations_not_chosen [OF 2, of ?P] by simp
  have all: "\<forall>e \<in> set ?sc. benefit e = b \<longrightarrow>
      times_shown e =
        int (length (filter ?P (data_long (left_merge (before @ after) ?rs)))) +
        int (count_list (benefit_cells dr) (Some b)) \<and>
      times_chosen e =
        sum_list (map obs_chosen (filter ?P (data_long (left_merge (before @ after) ?rs))))"
  proof (intro ballI impI)
    fix e assume e: "e \<in> set ?sc" and be: "benefit e = b"
    from scorecard_counts [OF e] be
    have "times_shown e = int (length (filter ?P (data_long ?merged)))"
      and "times_chosen e = sum_list (map obs_chosen (filter ?P (data_long ?merged)))"
      by simp_all
    then show "times_shown e =
        int (length (filter ?P (data_long (left_merge (before @ after) ?rs)))) +
        int (count_list (benefit_cells dr) (Some b)) \<and>
      times_chosen e =
        sum_list (map obs_chosen (filter ?P (data_long (left_merge (before @ after) ?rs))))"
      using shown chosen by simp
  qed
  from ret ex all have 3: "\<exists>sc a'. calculate_preference_scores (snd (merge_data a)) = Inr (sc, a') \<and>
      (\<exists>e \<in> set sc. benefit e = b) \<and>
      (\<forall>e \<in> set sc. benefit e = b \<longrightarrow>
         times_shown e =
           int (length (filter ?P (data_long (left_merge (before @ after) ?rs)))) +
           int (count_list (benefit_cells dr) (Some b)) \<and>
         times_chosen e =
           sum_list (map obs_chosen (filter ?P (data_long (left_merge (before @ after) ?rs)))))"
    by blast
  from 1 2 3 show ?thesis by (intro conjI)
qed

theorem unmatched_row_counts_as_shown_witness:
  "design_df partly_answered = xy_design @ unanswered_row # [] \<and>
   matching_responses unanswered_row (response_df partly_answered) = [] \<and>
   Some [88] \<in> set (benefit_cells unanswered_row) \<and> [88::nat] \<noteq> [] \<and>
   fst (merge_data partly_answered) =
     left_merge xy_design chose_A @ [flag_chosen unanswered_row None] \<and>
   (\<exists>sc a'. calculate_preference_scores (snd (merge_data partly_answered)) = Inr (sc, a') \<and>
      (\<exists>e \<in> set sc. benefit e = [88] \<and> times_shown e = 2 \<and> times_chosen e = 1))"
proof -
  have h1: "design_df partly_answered = xy_design @ unanswered_row # []"
    by (simp add: partly_answered_def init_analyzer_def)
  have rs: "response_df partly_answered = chose_A"
    by (simp add: partly_answered_def init_analyzer_def)
  have h2: "matching_responses unanswered_row (response_df partly_answered) = []"
    by (simp add: rs matching_responses_def unanswered_row_def chose_A_def)
  have h3: "Some [88] \<in> set (benefit_cells unanswered_row)"
    by (simp add: unanswered_row_def)
  have h4: "[88::nat] \<noteq> []" by simp
  have elsewhere: "data_long (left_merge xy_design chose_A) =
      [\<lparr>obs_benefit = [88], obs_chosen = 1, obs_respondent_id = 1, obs_question_id = 1\<rparr>,
       \<lparr>obs_benefit = [89], obs_chosen = 0, obs_respondent_id = 1, obs_question_id = 1\<rparr>]"
    by (simp add: xy_design_def chose_A_def left_merge_def matching_responses_def
        flag_chosen_def data_long_def row_observations_def)
  have cells: "count_list (benefit_cells unanswered_row) (Some [88]) = 1"
    by (simp add: unanswered_row_def)
  from unmatched_row_counts_as_shown [OF h1 h2 h3 h4]
  obtain sc a' where m: "fst (merge_data partly_answered) =
        left_merge xy_design (response_df partly_answered) @
        flag_chosen unanswered_row None # left_merge [] (response_df partly_answered)"
    and ret: "calculate_preference_scores (snd (merge_data partly_answered)) = Inr (sc, a')"
    and ex: "\<exists>e \<in> set sc. benefit e = [88]"
    and all: "\<forall>e \<in> set sc. benefit e = [88] \<longrightarrow>
       times_shown e =
         int (length (filter (\<lambda>ob. obs_benefit ob = [88])
                (data_long (left_merge (xy_design @ []) (response_df partly_answered))))) +
         int (count_list (benefit_cells unanswered_row) (Some [88])) \<and>
       times_chosen e =
         sum_list (map obs_chosen (filter (\<lambda>ob. obs_benefit ob = [88])
                (data_long (left_merge (xy_design @ []) (response_df partly_answered)))))"
    by blast
  from ex obtain e where e: "e \<in> set sc" "benefit e = [88]" by blast
  with all have "times_shown e = 2 \<and> times_chosen e = 1"
    by (simp add: rs elsewhere cells)
  with e ret have 3: "\<exists>sc a'. calculate_preference_scores (snd (merge_data partly_answered)) =
      Inr (sc, a') \<and> (\<exists>e \<in> set sc. benefit e = [88] \<and> times_shown e = 2 \<and> times_chosen e = 1)"
    by blast
  from m have 2: "fst (merge_data partly_answered) =
      left_merge xy_design chose_A @ [flag_chosen unanswered_row None]"
    by (simp add: rs)
  from h1 h2 h3 h4 2 3 show ?thesis by (intro conjI)
qed


subsection \<open>At most one chosen alternative per answered question\<close>

lemma distinct_concat_tagged:
  assumes "distinct (map k xs)"
    and "\<And>x. x \<in> set xs \<Longrightarrow> distinct (f x)"
    and "\<And>x y. x \<in> set xs \<Longrightarrow> y \<in> set (f x) \<Longrightarrow> tag y = k x"
  shows "distinct (concat (map f xs))"
  using assms
proof (induction xs)
  case Nil
  then show ?case by simp
next
  case (Cons x xs)
  have "distinct (concat (map f xs))"
    using Cons.prems by (intro Cons.IH) auto
  moreover have "distinct (f x)" using Cons.prems(2) by simp
  moreover have "set (f x) \<inter> set (concat (map f xs)) = {}"
  proof (rule ccontr)
    assume "set (f x) \<inter> set (concat (map f xs)) \<noteq> {}"
    then obtain y x' where y: "y \<in> set (f x)" and x': "x' \<in> set xs" "y \<in> set (f x')"
      by auto
    from Cons.prems(3) [of x y] y have "tag y = k x" by simp
    moreover from Cons.prems(3) [of x' y] x' have "tag y = k x'" by simp
    ultimately have "k x = k x'" by simp
    moreover have "k x' \<in> set (map k xs)" using x'(1) by simp
    ultimately have "k x \<in> set (map k xs)" by simp
    with Cons.prems(1) show False by simp
  qed
  ultimately show ?case by simp
qed

lemma labels_distinct: "distinct (map (\<lambda>i. [nat (65 + i)]) [0..n - 1])"
  by (auto simp: distinct_map inj_on_def)

lemma question_ok_labels: "question_ok d q \<Longrightarrow> distinct (map alternative_id (alternatives q))"
  by (simp add: question_ok_def labels_distinct)

lemma export_keys:
  "map (\<lambda>row. (row_respondent_id row, row_question_id row, alternative row))
       (export_to_csv d surveys) =
   concat (map (\<lambda>s. concat (map (\<lambda>q.
       map (\<lambda>a. (respondent_id s, question_id q, alternative_id a)) (alternatives q))
     (questions s))) surveys)"
  by (simp add: export_to_csv_def map_concat comp_def)

lemma export_keys_distinct:
  assumes "Inr surveys \<in> set (generate_survey d n)"
  shows "distinct (map (\<lambda>row. (row_respondent_id row, row_question_id row, alternative row))
                       (export_to_csv d surveys))"
proof -
  from generate_survey_shape [OF assms]
  have ids: "map respondent_id surveys = [1..n]" and ok: "\<forall>s \<in> set surveys. survey_ok d s"
    by simp_all
  have per_question: "distinct (map (\<lambda>a. (r, question_id q, alternative_id a)) (alternatives q))"
    if "question_ok d q" for q and r :: int
  proof -
    have "distinct (map (\<lambda>l. (r, question_id q, l)) (map alternative_id (alternatives q)))"
      using question_ok_labels [OF that] by (simp add: distinct_map inj_on_def del: map_map)
    then show ?thesis by (simp add: comp_def)
  qed
  have per_survey: "distinct (concat (map (\<lambda>q.
      map (\<lambda>a. (respondent_id s, question_id q, alternative_id a)) (alternatives q))
      (questions s)))" if s: "s \<in> set surveys" for s
  proof (rule distinct_concat_tagged [where k = question_id and tag = "\<lambda>t. fst (snd t)"])
    show "distinct (map question_id (questions s))"
      using ok s by (simp add: survey_ok_def)
  next
    fix q assume "q \<in> set (questions s)"
    with ok s have "question_ok d q" by (auto simp: survey_ok_def)
    then show "distinct (map (\<lambda>a. (respondent_id s, question_id q, alternative_id a))
        (alternatives q))"
      by (rule per_question)
  next
    fix q y assume "q \<in> set (questions s)"
      "y \<in> set (map (\<lambda>a. (respondent_id s, question_id q, alternative_id a)) (alternatives q))"
    then show "fst (snd y) = question_id q" by auto
  qed
  have "distinct (concat (map (\<lambda>s. concat (map (\<lambda>q.
       map (\<lambda>a. (respondent_id s, question_id q, alternative_id a)) (alternatives q))
     (questions s))) surveys))"
  proof (rule distinct_concat_tagged [where k = respondent_id and tag = fst])
    show "distinct (map respondent_id surveys)" by (simp add: ids)
  next
    fix s assume "s \<in> set surveys"
    then show "distinct (concat (map (\<lambda>q.
      map (\<lambda>a. (respondent_id s, question_id q, alternative_id a)) (alternatives q))
      (questions s)))"
      by (rule per_survey)
  next
    fix s y assume "s \<in> set surveys"
      "y \<in> set (concat (map (\<lambda>q.
          map (\<lambda>a. (respondent_id s, question_id q, alternative_id a)) (alternatives q))
          (questions s)))"
    then show "fst y = respondent_id s" by auto
  qed
  then show ?thesis by (simp only: export_keys)
qed

lemma filter_key_at_most_one:
  "distinct (map f xs) \<Longrightarrow> length (filter (\<lambda>x. f x = v) xs) \<le> 1"
proof (induction xs)
  case Nil
  then show ?case by simp
next
  case (Cons x xs)
  show ?case
  proof (cases "f x = v")
    case True
    from Cons.prems have "f x \<notin> set (map f xs)" by simp
    with True have "\<forall>y \<in> set xs. f y \<noteq> v" by (metis image_eqI list.set_map)
    then have "filter (\<lambda>x. f x = v) xs = []" by (simp add: filter_empty_conv)
    with True show ?thesis by simp
  next
    case False
    with Cons show ?thesis by simp
  qed
qed

lemma filter_length_mono:
  "(\<And>x. x \<in> set xs \<Longrightarrow> P x \<Longrightarrow> Q x) \<Longrightarrow> length (filter P xs) \<le> length (filter Q xs)"
  by (induction xs) auto

lemma left_merge_single_response:
  assumes "\<forall>r q. length (filter (\<lambda>x. resp_respondent_id x = r \<and> resp_question_id x = q)
                        responses) \<le> 1"
  shows "left_merge design responses =
           map (\<lambda>dr. flag_chosen dr
                 (case matching_responses dr responses of
                    [] \<Rightarrow> None | x # _ \<Rightarrow> resp_chosen_alternative x)) design"
proof -
  have one: "(case matching_responses dr responses of
                [] \<Rightarrow> [flag_chosen dr None]
              | rs \<Rightarrow> map (\<lambda>r. flag_chosen dr (resp_chosen_alternative r)) rs) =
      [flag_chosen dr (case matching_responses dr responses of
                    [] \<Rightarrow> None | x # _ \<Rightarrow> resp_chosen_alternative x)]" for dr
  proof (cases "matching_responses dr responses")
    case Nil
    then show ?thesis by simp
  next
    case (Cons x rest)
    from assms have "length (matching_responses dr responses) \<le> 1"
      unfolding matching_responses_def by blast
    with Cons have "rest = []" by simp
    with Cons show ?thesis by simp
  qed
  show ?thesis unfolding left_merge_def by (induction design) (simp_all add: one)
qed

lemma at_most_one_chosen_row:
  assumes "distinct (map (\<lambda>row. (row_respondent_id row, row_question_id row, alternative row))
                         design)"
    and "\<forall>r q. length (filter (\<lambda>x. resp_respondent_id x = r \<and> resp_question_id x = q)
                        responses) \<le> 1"
  shows "length (filter (\<lambda>m. row_respondent_id m = r \<and> row_question_id m = q \<and> chosen m = 1)
                        (left_merge design responses)) \<le> 1"
proof -
  let ?c = "\<lambda>dr. case matching_responses dr responses of
                    [] \<Rightarrow> None | x # _ \<Rightarrow> resp_chosen_alternative x"
  let ?T = "\<lambda>row. (row_respondent_id row, row_question_id row, alternative row)"
  let ?resp = "case filter (\<lambda>x. resp_respondent_id x = r \<and> resp_question_id x = q) responses of
               [] \<Rightarrow> None | x # _ \<Rightarrow> resp_chosen_alternative x"
  let ?P = "\<lambda>dr. row_respondent_id dr = r \<and> row_question_id dr = q \<and> ?c dr = Some (alternative dr)"
  have "filter (\<lambda>m. row_respondent_id m = r \<and> row_question_id m = q \<and> chosen m = 1)
          (left_merge design responses) =
        map (\<lambda>dr. flag_chosen dr (?c dr)) (filter ?P design)"
    unfolding left_merge_single_response [OF assms(2)] filter_map
    by (rule arg_cong [where f = "map _"], rule filter_cong)
       (auto simp: flag_chosen_def comp_def)
  then have len: "length (filter (\<lambda>m. row_respondent_id m = r \<and> row_question_id m = q \<and>
      chosen m = 1) (left_merge design responses)) = length (filter ?P design)"
    by simp
  have same: "?c dr = ?resp" if "row_respondent_id dr = r" "row_question_id dr = q" for dr
    using that by (simp add: matching_responses_def)
  show ?thesis
  proof (cases ?resp)
    case None
    then have "filter ?P design = []"
      using same by (auto simp: filter_empty_conv)
    with len show ?thesis by simp
  next
    case (Some l)
    have "length (filter ?P design) \<le> length (filter (\<lambda>dr. ?T dr = (r, q, l)) design)"
    proof (rule filter_length_mono)
      fix dr assume "?P dr"
      then show "?T dr = (r, q, l)" using same [of dr] Some by simp
    qed
    also have "\<dots> \<le> 1" using assms(1) by (rule filter_key_at_most_one)
    finally show ?thesis using len by simp
  qed
qed

lemma sum_list_flags_bounds:
  "\<forall>x \<in> set xs. f x = (0::int) \<or> f x = 1 \<Longrightarrow>
   0 \<le> sum_list (map f xs) \<and> sum_list (map f xs) \<le> int (length xs)"
  by (induction xs) auto

lemma chosen_at_most_shown:
  assumes "\<forall>m \<in> set merged. chosen m = 0 \<or> chosen m = 1" and "e \<in> set (scorecard_of merged)"
  shows "0 \<le> times_chosen e \<and> times_chosen e \<le> times_shown e"
proof -
  let ?grp = "filter (\<lambda>ob. obs_benefit ob = benefit e) (data_long merged)"
  have "\<forall>ob \<in> set ?grp. obs_chosen ob = 0 \<or> obs_chosen ob = 1"
    using data_long_chosen [OF assms(1)] by simp
  from sum_list_flags_bounds [OF this] scorecard_counts [OF assms(2)]
  show ?thesis by simp
qed

text \<open>
  C9. The labels the generator gives the alternatives of a question are pairwise distinct.
  So when a generated design is merged with responses that hold at most one row per
  \<open>(respondent_id, question_id)\<close>, at most one merged row of each pair has \<open>chosen = 1\<close>;
  and in the scorecard no benefit is chosen more often than it is shown.
\<close>

theorem at_most_one_chosen:
  assumes "Inr surveys \<in> set (generate_survey d n)"
    and "\<forall>r q. length (filter (\<lambda>x. resp_respondent_id x = r \<and> resp_question_id x = q)
                        responses) \<le> 1"
  shows "(\<forall>s \<in> set surveys. \<forall>q \<in> set (questions s).
            distinct (map alternative_id (alternatives q))) \<and>
         (\<forall>r q. length (filter (\<lambda>m. row_respondent_id m = r \<and> row_question_id m = q \<and>
                                   chosen m = 1)
                    (fst (merge_data (init_analyzer (export_to_csv d surveys) responses))))
                 \<le> 1) \<and>
         (\<forall>sc a'. calculate_preference_scores
                     (snd (merge_data (init_analyzer (export_to_csv d surveys) responses))) =
                   Inr (sc, a') \<longrightarrow>
                 (\<forall>e \<in> set sc. 0 \<le> times_chosen e \<and> times_chosen e \<le> times_shown e))"
proof (intro conjI allI impI)
  from generate_survey_shape [OF assms(1)]
  have ok: "\<forall>s \<in> set surveys. survey_ok d s" by simp
  then show "\<forall>s \<in> set surveys. \<forall>q \<in> set (questions s).
      distinct (map alternative_id (alternatives q))"
    by (auto simp: survey_ok_def intro: question_ok_labels)
next
  fix r q
  have m: "fst (merge_data (init_analyzer (export_to_csv d surveys) responses)) =
      left_merge (export_to_csv d surveys) responses"
    by (simp add: merge_data_value init_analyzer_def)
  show "length (filter (\<lambda>m. row_respondent_id m = r \<and> row_question_id m = q \<and> chosen m = 1)
      (fst (merge_data (init_analyzer (export_to_csv d surveys) responses)))) \<le> 1"
    unfolding m
    using export_keys_distinct [OF assms(1)] assms(2) by (rule at_most_one_chosen_row)
next
  fix sc a'
  assume ret: "calculate_preference_scores
      (snd (merge_data (init_analyzer (export_to_csv d surveys) responses))) = Inr (sc, a')"
  let ?merged = "left_merge (export_to_csv d surveys) responses"
  have "merged_df (snd (merge_data (init_analyzer (export_to_csv d surveys) responses))) =
      Some ?merged"
    by (simp add: merge_data_value init_analyzer_def)
  with ret have sc: "sc = scorecard_of ?merged"
    unfolding scores_Inr_iff by auto
  have flags: "\<forall>m \<in> set ?merged. chosen m = 0 \<or> chosen m = 1"
    using left_merge_chosen by blast
  show "\<forall>e \<in> set sc. 0 \<le> times_chosen e \<and> times_chosen e \<le> times_shown e"
    unfolding sc using chosen_at_most_shown [OF flags] by blast
qed

theorem at_most_one_chosen_witness:
  "Inr example_surveys \<in> set (generate_survey small_designer 1) \<and>
   (\<forall>r q. length (filter (\<lambda>x. resp_respondent_id x = r \<and> resp_question_id x = q) chose_A) \<le> 1) \<and>
   distinct (map alternative_id (alternatives example_question)) \<and>
   length (filter (\<lambda>m. row_respondent_id m = 1 \<and> row_question_id m = 1 \<and> chosen m = 1)
     (fst (merge_data (init_analyzer (export_to_csv small_designer example_surveys) chose_A))))
     \<le> 1"
proof -
  have u: "[0..1] = [0, 1::int]" "[1..1] = [1::int]" by (simp_all add: upto_rec1)
  have h1: "Inr example_surveys \<in> set (generate_survey small_designer 1)"
    by (simp add: example_surveys_def example_question_def generate_survey_def
        generate_question_def generate_random_bundle_def available_benefits_def
        random_sample_def small_designer_fields chr_def u)
  have h2: "\<forall>r q. length (filter (\<lambda>x. resp_respondent_id x = r \<and> resp_question_id x = q)
      chose_A) \<le> 1"
    by (simp add: chose_A_def)
  from at_most_one_chosen [OF h1 h2]
  have labels: "\<forall>s \<in> set example_surveys. \<forall>q \<in> set (questions s).
      distinct (map alternative_id (alternatives q))"
    and rows: "\<forall>r q. length (filter (\<lambda>m. row_respondent_id m = r \<and> row_question_id m = q \<and>
        chosen m = 1)
      (fst (merge_data (init_analyzer (export_to_csv small_designer example_surveys) chose_A))))
      \<le> 1"
    by blast+
  from labels have 3: "distinct (map alternative_id (alternatives example_question))"
    by (simp add: example_surveys_def)
  from rows have 4: "length (filter (\<lambda>m. row_respondent_id m = 1 \<and> row_question_id m = 1 \<and>
        chosen m = 1)
      (fst (merge_data (init_analyzer (export_to_csv small_designer example_surveys) chose_A))))
      \<le> 1"
    by blast
  from h1 h2 3 4 show ?thesis by (intro conjI)
qed


subsection \<open>The optional logit estimator\<close>

text \<open>
  C3, as the code has it. When \<open>statsmodels\<close> cannot be imported the estimator returns
  \<open>None\<close> and raises nothing, whatever the state of the analyzer. When the library is there,
  nothing is absorbed: \<open>AttributeError\<close> leaves the function if \<open>merge_data\<close> has not run,
  and after \<open>merge_data\<close> every exception of the estimator other than \<open>ImportError\<close>, among
  them the one that reports a fit that cannot be computed, leaves the function.
\<close>

theorem logit_handles_import_error_only:
  "calculate_logit_regression NotInstalled a = Inr None \<and>
   (merged_df a = None \<longrightarrow>
      calculate_logit_regression (Installed fit) a = Inl AttributeError) \<and>
   (fit (all_benefits (design_df a))
        (map (features (all_benefits (design_df a)))
             (left_merge (design_df a) (response_df a)))
        (map chosen (left_merge (design_df a) (response_df a))) = Raises e \<and>
    e \<noteq> ImportError \<longrightarrow>
      calculate_logit_regression (Installed fit) (snd (merge_data a)) = Inl e)"
  by (simp add: calculate_logit_regression_def logit_body_def merge_data_value Let_def)

theorem logit_handles_import_error_only_witness:
  "calculate_logit_regression NotInstalled single_merged = Inr None \<and>
   merged_df (init_analyzer single_design chose_A) = None \<and>
   calculate_logit_regression (Installed rejecting_fit) (init_analyzer single_design chose_A) =
     Inl AttributeError \<and>
   AxisError \<noteq> ImportError \<and>
   calculate_logit_regression (Installed rejecting_fit)
     (snd (merge_data (init_analyzer single_design chose_A))) = Inl AxisError"
proof -
  let ?a = "init_analyzer single_design chose_A"
  have n: "merged_df ?a = None" by (simp add: init_analyzer_def)
  have r: "rejecting_fit (all_benefits (design_df ?a))
      (map (features (all_benefits (design_df ?a))) (left_merge (design_df ?a) (response_df ?a)))
      (map chosen (left_merge (design_df ?a) (response_df ?a))) = Raises AxisError"
    by (simp add: rejecting_fit_def)
  have 1: "calculate_logit_regression NotInstalled single_merged = Inr None"
    using logit_handles_import_error_only [of single_merged] by blast
  have 2: "calculate_logit_regression (Installed rejecting_fit) ?a = Inl AttributeError"
    using logit_handles_import_error_only [of ?a rejecting_fit] n by blast
  have 5: "AxisError \<noteq> ImportError" by simp
  have 3: "calculate_logit_regression (Installed rejecting_fit) (snd (merge_data ?a)) =
      Inl AxisError"
    using logit_handles_import_error_only [of ?a rejecting_fit AxisError] r 5 by blast
  from 1 n 2 5 3 show ?thesis by (intro conjI)
qed

text \<open>
  The claim as it is written fails with the library installed: on the merged data of a
  single, always chosen benefit no model can be fitted, the estimator raises, and the
  exception leaves the call instead of an absent result.
\<close>

theorem logit_failure_not_absorbed:
  "calculate_logit_regression (Installed rejecting_fit) single_merged = Inl AxisError"
  by (simp add: calculate_logit_regression_def logit_body_def single_merged_value
      rejecting_fit_def Let_def)


end
